theory Spec2Isabelle
  imports Main "HOL-Library.Word" "HOL-Library.Signed_Division"
begin

unbundle bit_operations_syntax

section \<open>Guest machine state\<close>

text \<open>
  The handlers of \<^verbatim>\<open>gba-bios.c\<close> act on a \<^verbatim>\<open>struct GBA\<close>: the
  register file \<^verbatim>\<open>cpu->gprs\<close> (32-bit words), the memory bus
  \<^verbatim>\<open>cpu->memory\<close>, the flag \<^verbatim>\<open>memory.fullBios\<close> and the BIOS image
  \<^verbatim>\<open>memory.bios\<close>.  Everything a handler does besides returning is a field
  of the state: the bytes of guest memory, the sequence of bus stores it issued, the
  log lines it printed, and how often it called \<^verbatim>\<open>ARMRaiseSWI\<close> and
  \<^verbatim>\<open>GBAHalt\<close>.
\<close>

type_synonym u8 = "8 word"
type_synonym u16 = "16 word"
type_synonym u32 = "32 word"

datatype store_ev = Store8 u32 u8 | Store16 u32 u16 | Store32 u32 u32

datatype log_level = GBA_LOG_STUB | GBA_LOG_GAME_ERROR | GBA_LOG_SWI

type_synonym log_line = "log_level \<times> string \<times> u32 list"

record gba =
  gprs :: "nat \<Rightarrow> u32"
  mem :: "u32 \<Rightarrow> u8"
  stores :: "store_ev list"
  logs :: "log_line list"
  swiRaised :: nat
  halts :: nat
  fullBios :: bool
  bios :: "nat \<Rightarrow> u32"

text \<open>
  Undefined behaviour of the C source that traps on the usual hosts is a value:
  \<^verbatim>\<open>32 % bits\<close> with \<^verbatim>\<open>bits == 0\<close>, and \<^verbatim>\<open>div(INT_MIN, -1)\<close>, whose
  quotient is not representable (C11 7.22.6.2).
\<close>

datatype fault = DivideByZero | QuotientOverflow

definition GBALog :: "gba \<Rightarrow> log_level \<Rightarrow> string \<Rightarrow> u32 list \<Rightarrow> gba" where
  "GBALog s level fmt args = s\<lparr>logs := logs s @ [(level, fmt, args)]\<rparr>"

section \<open>Division (SWI 0x06 and 0x07)\<close>

text \<open>\<^verbatim>\<open>abs\<close> on a 32-bit \<^verbatim>\<open>int\<close>, two's complement (\<^verbatim>\<open>abs(INT_MIN)\<close> is \<^verbatim>\<open>INT_MIN\<close>).\<close>

definition abs32 :: "u32 \<Rightarrow> u32" where
  "abs32 x = (if sint x < 0 then - x else x)"

text \<open>
  \<^verbatim>\<open>_Div(gba, num, denom)\<close>.  \<^verbatim>\<open>div\<close> truncates towards zero, which is
  \<open>sdiv\<close> and \<open>smod\<close> on \<open>int\<close>.
\<close>

definition Div :: "gba \<Rightarrow> u32 \<Rightarrow> u32 \<Rightarrow> fault + gba" where
  "Div s num denom =
     (if denom \<noteq> 0 then
        (if sint num = - (2 ^ 31) \<and> sint denom = - 1 then Inl QuotientOverflow
         else
           let quot = (word_of_int (sint num sdiv sint denom) :: u32);
               rem = (word_of_int (sint num smod sint denom) :: u32)
           in Inr (s\<lparr>gprs := (gprs s)(0 := quot, 1 := rem, 3 := abs32 quot)\<rparr>))
      else
        let s1 = GBALog s GBA_LOG_GAME_ERROR ''Attempting to divide %i by zero!'' [num]
        in Inr (s1\<lparr>gprs := (gprs s1)(0 := (if sint num < 0 then - 1 else 1), 1 := num, 3 := 1)\<rparr>))"

section \<open>The memory bus\<close>

text \<open>
  Modelled from the spec: the memory bus (\<^verbatim>\<open>cpu->memory.load*\<close> and
  \<^verbatim>\<open>store*\<close>, implemented outside this file).  The spec gives typed accessors
  taking an absolute guest address, total, with an access hint that is ignored.  Here
  guest memory is a flat little-endian array of bytes, and every store is also
  appended to the trace \<open>stores\<close>, so that what a handler wrote through the bus can
  be counted.  The integer arguments of the C calls are truncated to the width of the
  access, as the parameter types of the accessors do.
\<close>

definition loadU8 :: "gba \<Rightarrow> u32 \<Rightarrow> u32" where
  "loadU8 s a = ucast (mem s a)"

definition load8 :: "gba \<Rightarrow> u32 \<Rightarrow> u32" where
  "load8 s a = scast (mem s a)"

definition mem16 :: "gba \<Rightarrow> u32 \<Rightarrow> u16" where
  "mem16 s a = ucast (mem s a) OR push_bit 8 (ucast (mem s (a + 1)))"

definition loadU16 :: "gba \<Rightarrow> u32 \<Rightarrow> u32" where
  "loadU16 s a = ucast (mem16 s a)"

definition load16 :: "gba \<Rightarrow> u32 \<Rightarrow> u32" where
  "load16 s a = scast (mem16 s a)"

definition load32 :: "gba \<Rightarrow> u32 \<Rightarrow> u32" where
  "load32 s a = ucast (mem s a) OR push_bit 8 (ucast (mem s (a + 1)))
                 OR push_bit 16 (ucast (mem s (a + 2))) OR push_bit 24 (ucast (mem s (a + 3)))"

definition store8 :: "gba \<Rightarrow> u32 \<Rightarrow> u32 \<Rightarrow> gba" where
  "store8 s a v = s\<lparr>mem := (mem s)(a := ucast v), stores := stores s @ [Store8 a (ucast v)]\<rparr>"

definition store16 :: "gba \<Rightarrow> u32 \<Rightarrow> u32 \<Rightarrow> gba" where
  "store16 s a v =
     s\<lparr>mem := (mem s)(a := ucast v, a + 1 := ucast (drop_bit 8 v)),
       stores := stores s @ [Store16 a (ucast v)]\<rparr>"

definition store32 :: "gba \<Rightarrow> u32 \<Rightarrow> u32 \<Rightarrow> gba" where
  "store32 s a v =
     s\<lparr>mem := (mem s)(a := ucast v, a + 1 := ucast (drop_bit 8 v),
                       a + 2 := ucast (drop_bit 16 v), a + 3 := ucast (drop_bit 24 v)),
       stores := stores s @ [Store32 a v]\<rparr>"

text \<open>The number of bytes a store, and a trace of stores, puts on the bus.\<close>

fun store_size :: "store_ev \<Rightarrow> nat" where
  "store_size (Store8 a v) = 1"
| "store_size (Store16 a v) = 2"
| "store_size (Store32 a v) = 4"

definition bytes_stored :: "store_ev list \<Rightarrow> nat" where
  "bytes_stored evs = sum_list (map store_size evs)"

text \<open>What a handler run from \<open>s\<close> to \<open>s'\<close> stored: the trace beyond that of \<open>s\<close>.\<close>

definition written :: "gba \<Rightarrow> gba \<Rightarrow> nat" where
  "written s s' = bytes_stored (stores s') - bytes_stored (stores s)"

section \<open>Writing one decoded byte\<close>

text \<open>
  The block that \<^verbatim>\<open>_unLz77\<close> and \<^verbatim>\<open>_unRl\<close> repeat for every byte they
  produce: with \<^verbatim>\<open>width == 2\<close> an even destination keeps the byte in
  \<^verbatim>\<open>halfword\<close>, an odd one completes it and stores 16 bits at \<^verbatim>\<open>dest ^ 1\<close>;
  any other width stores the byte.  The caller advances \<^verbatim>\<open>dest\<close>.
\<close>

definition emit_byte :: "int \<Rightarrow> gba \<Rightarrow> u32 \<Rightarrow> u32 \<Rightarrow> u32 \<Rightarrow> gba \<times> u32" where
  "emit_byte width s dest halfword byte =
     (if width = 2 then
        (if dest AND 1 \<noteq> 0 then
           let halfword = halfword OR push_bit 8 byte
           in (store16 s (dest XOR 1) halfword, halfword)
         else (s, byte))
      else (store8 s dest byte, halfword))"

section \<open>LZ77 (SWI 0x11 and 0x12)\<close>

text \<open>
  The locals of \<^verbatim>\<open>_unLz77\<close> that live across iterations: the state, \<^verbatim>\<open>source\<close>,
  \<^verbatim>\<open>dest\<close>, \<^verbatim>\<open>remaining\<close>, \<^verbatim>\<open>blockheader\<close>, \<^verbatim>\<open>blocksRemaining\<close>,
  \<^verbatim>\<open>halfword\<close>.  \<^verbatim>\<open>remaining\<close> and \<^verbatim>\<open>blocksRemaining\<close> are C \<^verbatim>\<open>int\<close>s that
  stay within \<open>[-1, 2^24)\<close>, so they are \<open>int\<close>.
\<close>

type_synonym lz77_vars = "gba \<times> u32 \<times> u32 \<times> int \<times> u32 \<times> int \<times> u32"

text \<open>
  The copy loop of a compressed chunk, \<^verbatim>\<open>while (bytes-- && remaining)\<close>, on
  \<^verbatim>\<open>(state, disp, dest, remaining, halfword)\<close>.
\<close>

fun lz77_copy :: "int \<Rightarrow> nat \<Rightarrow> gba \<times> u32 \<times> u32 \<times> int \<times> u32 \<Rightarrow> gba \<times> u32 \<times> u32 \<times> int \<times> u32" where
  "lz77_copy width 0 st = st"
| "lz77_copy width (Suc bytes) (s, disp, dest, remaining, halfword) =
     (if remaining = 0 then (s, disp, dest, remaining, halfword)
      else
        let remaining = remaining - 1;
            byte = loadU8 s disp;
            disp = disp + 1;
            (s, halfword) = emit_byte width s dest halfword byte
        in lz77_copy width bytes (s, disp, dest + 1, remaining, halfword))"

text \<open>The displacement and the length that a chunk word \<^verbatim>\<open>block\<close> encodes.\<close>

definition lz77_disp :: "u32 \<Rightarrow> u32" where
  "lz77_disp block = push_bit 8 (block AND 0x000F) OR drop_bit 8 (block AND 0xFF00)"

definition lz77_bytes :: "u32 \<Rightarrow> nat" where
  "lz77_bytes block = unat (drop_bit 4 (block AND 0x00F0)) + 3"

text \<open>One iteration of \<^verbatim>\<open>while (remaining > 0)\<close>.\<close>

fun lz77_step :: "int \<Rightarrow> lz77_vars \<Rightarrow> lz77_vars" where
  "lz77_step width (s, source, dest, remaining, blockheader, blocksRemaining, halfword) =
     (if blocksRemaining \<noteq> 0 then
        (if blockheader AND 0x80 \<noteq> 0 then
           let block = loadU8 s source OR push_bit 8 (loadU8 s (source + 1));
               source = source + 2;
               disp = dest - lz77_disp block - 1;
               bytes = lz77_bytes block;
               (s, disp, dest, remaining, halfword) =
                  lz77_copy width bytes (s, disp, dest, remaining, halfword)
           in (s, source, dest, remaining, push_bit 1 blockheader, blocksRemaining - 1, halfword)
         else
           let byte = loadU8 s source;
               source = source + 1;
               (s, halfword) = emit_byte width s dest halfword byte
           in (s, source, dest + 1, remaining - 1, push_bit 1 blockheader, blocksRemaining - 1,
               halfword))
      else (s, source + 1, dest, remaining, loadU8 s source, 8, halfword))"

fun lz77_remaining :: "lz77_vars \<Rightarrow> int" where
  "lz77_remaining (s, source, dest, remaining, blockheader, blocksRemaining, halfword) = remaining"

fun lz77_measure :: "lz77_vars \<Rightarrow> nat" where
  "lz77_measure (s, source, dest, remaining, blockheader, blocksRemaining, halfword) =
     2 * nat remaining + (if blocksRemaining = 0 then 1 else 0)"

lemma lz77_copy_remaining:
  "0 \<le> remaining \<Longrightarrow>
   lz77_copy width bytes (s, disp, dest, remaining, halfword) = (s', disp', dest', remaining', halfword') \<Longrightarrow>
   remaining' = remaining - min (int bytes) remaining"
proof (induction bytes arbitrary: s disp dest remaining halfword)
  case 0
  then show ?case by simp
next
  case (Suc bytes)
  show ?case
  proof (cases "remaining = 0")
    case True
    with Suc.prems show ?thesis by simp
  next
    case False
    obtain s1 h1 where e: "emit_byte width s dest halfword (loadU8 s disp) = (s1, h1)"
      by (cases "emit_byte width s dest halfword (loadU8 s disp)")
    from Suc.prems(2) False e
    have "lz77_copy width bytes (s1, disp + 1, dest + 1, remaining - 1, h1)
            = (s', disp', dest', remaining', halfword')"
      by (simp add: Let_def)
    from Suc.IH [OF _ this] Suc.prems(1) False
    show ?thesis by (simp add: min_def split: if_splits)
  qed
qed

lemma lz77_step_decreases:
  assumes "0 < lz77_remaining st"
  shows "lz77_measure (lz77_step width st) < lz77_measure st"
proof -
  obtain s source dest remaining blockheader blocksRemaining halfword
    where st: "st = (s, source, dest, remaining, blockheader, blocksRemaining, halfword)"
    by (cases st)
  from assms st have pos: "0 < remaining" by simp
  define block where "block = loadU8 s source OR push_bit 8 (loadU8 s (source + 1))"
  obtain s' disp' dest' remaining' halfword'
    where c: "lz77_copy width (lz77_bytes block)
                (s, dest - lz77_disp block - 1, dest, remaining, halfword)
              = (s', disp', dest', remaining', halfword')"
    by (cases "lz77_copy width (lz77_bytes block)
                (s, dest - lz77_disp block - 1, dest, remaining, halfword)")
  from lz77_copy_remaining [OF _ c] pos
  have "remaining' = remaining - min (int (lz77_bytes block)) remaining" by simp
  moreover have "1 \<le> int (lz77_bytes block)" by (simp add: lz77_bytes_def)
  ultimately have r: "remaining' < remaining" "0 \<le> remaining'"
    using pos by (simp_all add: min_def)
  show ?thesis
    using pos r c
    by (simp add: st Let_def block_def [symmetric] split: prod.splits) linarith
qed

function lz77_loop :: "int \<Rightarrow> lz77_vars \<Rightarrow> lz77_vars" where
  "lz77_loop width st =
     (if lz77_remaining st > 0 then lz77_loop width (lz77_step width st) else st)"
  by pat_completeness auto
termination
  by (relation "measure (\<lambda>(width, st). lz77_measure st)") (auto intro: lz77_step_decreases)

declare lz77_loop.simps [simp del]

text \<open>
  \<^verbatim>\<open>_unLz77(gba, width)\<close>.  The local \<^verbatim>\<open>halfword\<close> is not initialised in the
  source; its indeterminate first value is the argument \<open>halfword0\<close>.
\<close>

definition unLz77 :: "u32 \<Rightarrow> gba \<Rightarrow> int \<Rightarrow> gba" where
  "unLz77 halfword0 s width =
     (let source = gprs s 0;
          dest = gprs s 1;
          remaining = uint (drop_bit 8 (load32 s source AND 0xFFFFFF00));
          blockheader = 0;
          source = source + 4;
          blocksRemaining = 0;
          (s, source, dest, remaining, blockheader, blocksRemaining, halfword) =
             lz77_loop width (s, source, dest, remaining, blockheader, blocksRemaining, halfword0)
      in s\<lparr>gprs := (gprs s)(0 := source, 1 := dest, 3 := 0)\<rparr>)"

section \<open>Run-length decoding (SWI 0x14 and 0x15)\<close>

type_synonym rl_vars = "gba \<times> u32 \<times> u32 \<times> int \<times> u32"

text \<open>
  The two inner loops \<^verbatim>\<open>while (blockheader-- && remaining)\<close>: the compressed one
  repeats \<^verbatim>\<open>block\<close> and leaves \<^verbatim>\<open>source\<close> alone, the uncompressed one reads
  a byte from \<^verbatim>\<open>source\<close> each time.
\<close>

fun rl_fill :: "int \<Rightarrow> u32 \<Rightarrow> nat \<Rightarrow> gba \<times> u32 \<times> int \<times> u32 \<Rightarrow> gba \<times> u32 \<times> int \<times> u32" where
  "rl_fill width block 0 st = st"
| "rl_fill width block (Suc blockheader) (s, dest, remaining, halfword) =
     (if remaining = 0 then (s, dest, remaining, halfword)
      else
        let remaining = remaining - 1;
            (s, halfword) = emit_byte width s dest halfword block
        in rl_fill width block blockheader (s, dest + 1, remaining, halfword))"

fun rl_copy :: "int \<Rightarrow> nat \<Rightarrow> rl_vars \<Rightarrow> rl_vars" where
  "rl_copy width 0 st = st"
| "rl_copy width (Suc blockheader) (s, source, dest, remaining, halfword) =
     (if remaining = 0 then (s, source, dest, remaining, halfword)
      else
        let remaining = remaining - 1;
            byte = loadU8 s source;
            source = source + 1;
            (s, halfword) = emit_byte width s dest halfword byte
        in rl_copy width blockheader (s, source, dest + 1, remaining, halfword))"

text \<open>One iteration of \<^verbatim>\<open>while (remaining > 0)\<close> in \<^verbatim>\<open>_unRl\<close>.\<close>

fun rl_step :: "int \<Rightarrow> rl_vars \<Rightarrow> rl_vars" where
  "rl_step width (s, source, dest, remaining, halfword) =
     (let blockheader = loadU8 s source;
          source = source + 1
      in if blockheader AND 0x80 \<noteq> 0 then
           let blockheader = (blockheader AND 0x7F) + 3;
               block = loadU8 s source;
               source = source + 1;
               (s, dest, remaining, halfword) =
                  rl_fill width block (unat blockheader) (s, dest, remaining, halfword)
           in (s, source, dest, remaining, halfword)
         else
           let blockheader = blockheader + 1
           in rl_copy width (unat blockheader) (s, source, dest, remaining, halfword))"

fun rl_remaining :: "rl_vars \<Rightarrow> int" where
  "rl_remaining (s, source, dest, remaining, halfword) = remaining"

lemma rl_fill_remaining:
  "0 \<le> remaining \<Longrightarrow>
   rl_fill width block n (s, dest, remaining, halfword) = (s', dest', remaining', halfword') \<Longrightarrow>
   remaining' = remaining - min (int n) remaining"
proof (induction n arbitrary: s dest remaining halfword)
  case 0
  then show ?case by simp
next
  case (Suc n)
  show ?case
  proof (cases "remaining = 0")
    case True
    with Suc.prems show ?thesis by simp
  next
    case False
    obtain s1 h1 where e: "emit_byte width s dest halfword block = (s1, h1)"
      by (cases "emit_byte width s dest halfword block")
    from Suc.prems(2) False e
    have "rl_fill width block n (s1, dest + 1, remaining - 1, h1) = (s', dest', remaining', halfword')"
      by (simp add: Let_def)
    from Suc.IH [OF _ this] Suc.prems(1) False
    show ?thesis by (simp add: min_def split: if_splits)
  qed
qed

lemma rl_copy_remaining:
  "0 \<le> remaining \<Longrightarrow>
   rl_copy width n (s, source, dest, remaining, halfword) = (s', source', dest', remaining', halfword') \<Longrightarrow>
   remaining' = remaining - min (int n) remaining"
proof (induction n arbitrary: s source dest remaining halfword)
  case 0
  then show ?case by simp
next
  case (Suc n)
  show ?case
  proof (cases "remaining = 0")
    case True
    with Suc.prems show ?thesis by simp
  next
    case False
    obtain s1 h1 where e: "emit_byte width s dest halfword (loadU8 s source) = (s1, h1)"
      by (cases "emit_byte width s dest halfword (loadU8 s source)")
    from Suc.prems(2) False e
    have "rl_copy width n (s1, source + 1, dest + 1, remaining - 1, h1)
            = (s', source', dest', remaining', halfword')"
      by (simp add: Let_def)
    from Suc.IH [OF _ this] Suc.prems(1) False
    show ?thesis by (simp add: min_def split: if_splits)
  qed
qed

text \<open>The block length of either kind is at least 1.\<close>

lemma rl_compressed_length: "3 \<le> unat ((b AND 0x7F) + 3 :: u32)"
proof -
  have "unat (b AND 0x7F) \<le> unat (0x7F :: u32)"
    by (rule word_and_le1 [THEN word_le_nat_alt [THEN iffD1]])
  then show ?thesis by (simp add: unat_word_ariths)
qed

lemma loadU8_less: "unat (loadU8 s a) < 256"
proof -
  have "unat (mem s a) < 2 ^ 8" using unsigned_less [of "mem s a"] by simp
  then show ?thesis by (simp add: loadU8_def unsigned_ucast_eq take_bit_nat_eq_self)
qed

lemma rl_literal_length: "1 \<le> unat (loadU8 s a + 1)"
  using loadU8_less [of s a] by (simp add: unat_word_ariths)

lemma rl_step_decreases:
  assumes "0 < rl_remaining st"
  shows "rl_remaining (rl_step width st) < rl_remaining st"
proof -
  obtain s source dest remaining halfword
    where st: "st = (s, source, dest, remaining, halfword)"
    by (cases st)
  from assms st have pos: "0 < remaining" by simp
  define bh where "bh = loadU8 s source"
  show ?thesis
  proof (cases "bh AND 0x80 \<noteq> 0")
    case True
    obtain s' dest' remaining' halfword'
      where c: "rl_fill width (loadU8 s (source + 1)) (unat ((bh AND 0x7F) + 3))
                  (s, dest, remaining, halfword) = (s', dest', remaining', halfword')"
      by (cases "rl_fill width (loadU8 s (source + 1)) (unat ((bh AND 0x7F) + 3))
                  (s, dest, remaining, halfword)")
    have "int 3 \<le> int (unat ((bh AND 0x7F) + 3))"
      by (rule of_nat_mono) (rule rl_compressed_length)
    then have "3 \<le> uint ((bh AND 0x7F) + 3)" by simp
    with rl_fill_remaining [OF _ c] pos
    have "remaining' < remaining" unfolding min_def by (simp split: if_splits)
    with True c pos show ?thesis by (simp add: st Let_def bh_def [symmetric])
  next
    case False
    obtain s' source' dest' remaining' halfword'
      where c: "rl_copy width (unat (bh + 1)) (s, source + 1, dest, remaining, halfword)
                  = (s', source', dest', remaining', halfword')"
      by (cases "rl_copy width (unat (bh + 1)) (s, source + 1, dest, remaining, halfword)")
    have "int 1 \<le> int (unat (bh + 1))"
      unfolding bh_def by (rule of_nat_mono) (rule rl_literal_length)
    then have "1 \<le> uint (bh + 1)" by simp
    with rl_copy_remaining [OF _ c] pos
    have "remaining' < remaining" unfolding min_def by (simp split: if_splits)
    with False c pos show ?thesis by (simp add: st Let_def bh_def [symmetric])
  qed
qed

function rl_loop :: "int \<Rightarrow> rl_vars \<Rightarrow> rl_vars" where
  "rl_loop width st = (if rl_remaining st > 0 then rl_loop width (rl_step width st) else st)"
  by pat_completeness auto
termination
  by (relation "measure (\<lambda>(width, st). nat (rl_remaining st))")
     (simp_all add: rl_step_decreases)

declare rl_loop.simps [simp del]

text \<open>
  The padding loops after the main loop, on the 32-bit \<^verbatim>\<open>int padding\<close>:
  \<^verbatim>\<open>while (padding--)\<close> with byte stores, and
  \<^verbatim>\<open>for (; padding > 0; padding -= 2, dest += 2)\<close> with halfword stores.
\<close>

function rl_pad8 :: "u32 \<Rightarrow> gba \<times> u32 \<Rightarrow> gba \<times> u32" where
  "rl_pad8 padding (s, dest) =
     (if padding \<noteq> 0 then rl_pad8 (padding - 1) (store8 s dest 0, dest + 1) else (s, dest))"
  by pat_completeness auto
termination
  by (relation "measure (\<lambda>(padding, st). unat padding)") (auto simp: unat_minus_one unat_gt_0)

declare rl_pad8.simps [simp del]

lemma sint_minus_2: "0 < sint (p :: u32) \<Longrightarrow> sint (p - 2) = sint p - 2"
proof -
  assume "0 < sint p"
  moreover have "sint p < 2 ^ 31" using sint_lt [of p] by simp
  ultimately have "signed_take_bit 31 (sint p - 2) = sint p - 2"
    by (intro signed_take_bit_int_eq_self) simp_all
  then show ?thesis by (simp add: sint_word_ariths)
qed

function rl_pad16 :: "u32 \<Rightarrow> gba \<times> u32 \<Rightarrow> gba \<times> u32" where
  "rl_pad16 padding (s, dest) =
     (if 0 < sint padding then rl_pad16 (padding - 2) (store16 s dest 0, dest + 2) else (s, dest))"
  by pat_completeness auto
termination
  by (relation "measure (\<lambda>(padding, st). nat (sint padding))") (auto simp: sint_minus_2)

declare rl_pad16.simps [simp del]

text \<open>\<^verbatim>\<open>_unRl(gba, width)\<close>.\<close>

definition unRl :: "gba \<Rightarrow> int \<Rightarrow> gba" where
  "unRl s width =
     (let source = gprs s 0 AND 0xFFFFFFFC;
          remaining = drop_bit 8 (load32 s source AND 0xFFFFFF00);
          padding = (4 - remaining) AND 0x3;
          source = source + 4;
          dest = gprs s 1;
          halfword = 0;
          (s, source, dest, remaining, halfword) =
             rl_loop width (s, source, dest, uint remaining, halfword);
          (s, dest) =
             (if width = 2 then
                let (padding, dest) =
                      (if dest AND 1 \<noteq> 0 then (padding - 1, dest + 1) else (padding, dest))
                in rl_pad16 padding (s, dest)
              else rl_pad8 padding (s, dest))
      in s\<lparr>gprs := (gprs s)(0 := source, 1 := dest)\<rparr>)"

section \<open>UnFilter (SWI 0x16, 0x17 and 0x18)\<close>

type_synonym unFilter_vars = "gba \<times> u32 \<times> u32 \<times> int \<times> u16 \<times> u16"

text \<open>
  One iteration of \<^verbatim>\<open>while (remaining > 0)\<close> in \<^verbatim>\<open>_unFilter\<close>, on
  \<^verbatim>\<open>(state, source, dest, remaining, halfword, old)\<close>; \<^verbatim>\<open>new\<close>, \<^verbatim>\<open>halfword\<close> and
  \<^verbatim>\<open>old\<close> are \<^verbatim>\<open>uint16_t\<close>.
\<close>

fun unFilter_step :: "int \<Rightarrow> int \<Rightarrow> unFilter_vars \<Rightarrow> unFilter_vars" where
  "unFilter_step inwidth outwidth (s, source, dest, remaining, halfword, old) =
     (let new = (if inwidth = 1 then ucast (loadU8 s source) else ucast (loadU16 s source)) :: u16;
          new = new + old
      in if outwidth > inwidth then
           let halfword = drop_bit 8 halfword;
               halfword = halfword OR push_bit 8 new
           in if source AND 1 \<noteq> 0 then
                (store16 s dest (ucast halfword), source + word_of_int inwidth,
                 dest + word_of_int outwidth, remaining - outwidth, halfword, new)
              else (s, source + word_of_int inwidth, dest, remaining, halfword, new)
         else if outwidth = 1 then
           (store8 s dest (ucast new), source + word_of_int inwidth,
            dest + word_of_int outwidth, remaining - outwidth, halfword, new)
         else
           (store16 s dest (ucast new), source + word_of_int inwidth,
            dest + word_of_int outwidth, remaining - outwidth, halfword, new))"

fun unFilter_remaining :: "unFilter_vars \<Rightarrow> int" where
  "unFilter_remaining (s, source, dest, remaining, halfword, old) = remaining"

text \<open>
  The loop is written for any pair of widths, and for some (an \<^verbatim>\<open>outwidth\<close> of 0,
  say) it does not end: not returning is \<open>None\<close>.
\<close>

partial_function (option) unFilter_loop :: "int \<Rightarrow> int \<Rightarrow> unFilter_vars \<Rightarrow> unFilter_vars option" where
  "unFilter_loop inwidth outwidth st =
     (if unFilter_remaining st > 0
      then unFilter_loop inwidth outwidth (unFilter_step inwidth outwidth st)
      else Some st)"

declare unFilter_loop.simps [code]

text \<open>What decreases in the loop, for the three pairs of widths that the dispatcher passes.\<close>

fun unFilter_measure :: "int \<Rightarrow> int \<Rightarrow> unFilter_vars \<Rightarrow> nat" where
  "unFilter_measure inwidth outwidth (s, source, dest, remaining, halfword, old) =
     2 * nat remaining + (if inwidth \<noteq> outwidth \<and> source AND 1 = 0 then 1 else 0)"

text \<open>\<^verbatim>\<open>_unFilter(gba, inwidth, outwidth)\<close>.\<close>

definition unFilter :: "gba \<Rightarrow> int \<Rightarrow> int \<Rightarrow> gba option" where
  "unFilter s inwidth outwidth =
     (let source = gprs s 0 AND 0xFFFFFFFC;
          dest = gprs s 1;
          header = load32 s source;
          remaining = uint (drop_bit 8 header);
          halfword = 0;
          old = 0;
          source = source + 4
      in case unFilter_loop inwidth outwidth (s, source, dest, remaining, halfword, old) of
           None \<Rightarrow> None
         | Some (s, source, dest, remaining, halfword, old) \<Rightarrow>
             Some (s\<lparr>gprs := (gprs s)(0 := source, 1 := dest)\<rparr>))"

section \<open>Huffman (SWI 0x13)\<close>

text \<open>
  The fields of a \<^verbatim>\<open>HuffmanNode\<close> byte, as the \<^verbatim>\<open>DECL_BITS\<close> and
  \<^verbatim>\<open>DECL_BIT\<close> lines declare them: \<^verbatim>\<open>Offset\<close> is bits 0 to 5, \<^verbatim>\<open>RTerm\<close>
  bit 6, \<^verbatim>\<open>LTerm\<close> bit 7.
\<close>

definition HuffmanNodeGetOffset :: "u8 \<Rightarrow> u32" where
  "HuffmanNodeGetOffset node = ucast (node AND 0x3F)"

definition HuffmanNodeIsRTerm :: "u8 \<Rightarrow> bool" where
  "HuffmanNodeIsRTerm node = bit node 6"

definition HuffmanNodeIsLTerm :: "u8 \<Rightarrow> bool" where
  "HuffmanNodeIsLTerm node = bit node 7"

text \<open>
  The locals that change inside the bit loop: the state, \<^verbatim>\<open>dest\<close>,
  \<^verbatim>\<open>remaining\<close>, \<^verbatim>\<open>block\<close>, \<^verbatim>\<open>nPointer\<close>, \<^verbatim>\<open>node\<close>, \<^verbatim>\<open>bitsSeen\<close>.
\<close>

type_synonym huff_vars = "gba \<times> u32 \<times> int \<times> u32 \<times> u32 \<times> u8 \<times> nat"

text \<open>
  The end of the loop body, reached with a leaf value in \<^verbatim>\<open>readBits\<close>: the symbol
  goes into \<^verbatim>\<open>block\<close>, the walk restarts at the root, and a full word is stored.
\<close>

fun huff_symbol :: "nat \<Rightarrow> u32 \<Rightarrow> u32 \<Rightarrow> huff_vars \<Rightarrow> huff_vars" where
  "huff_symbol bits treeBase readBits (s, dest, remaining, block, nPointer, node, bitsSeen) =
     (let block = block OR push_bit bitsSeen (readBits AND (push_bit bits 1 - 1));
          bitsSeen = bitsSeen + bits;
          nPointer = treeBase;
          node = ucast (load8 s nPointer)
      in if bitsSeen = 32 then
           (store32 s dest block, dest + 4, remaining - 4, 0, nPointer, node, 0)
         else (s, dest, remaining, block, nPointer, node, bitsSeen))"

text \<open>The loop body for the top bit of \<^verbatim>\<open>bitstream\<close>; a \<^verbatim>\<open>continue\<close> ends it early.\<close>

fun huff_bit :: "nat \<Rightarrow> u32 \<Rightarrow> u32 \<Rightarrow> huff_vars \<Rightarrow> huff_vars" where
  "huff_bit bits treeBase bitstream (s, dest, remaining, block, nPointer, node, bitsSeen) =
     (let next = (nPointer AND NOT 1) + HuffmanNodeGetOffset node * 2 + 2
      in if bitstream AND 0x80000000 \<noteq> 0 then
           (if HuffmanNodeIsRTerm node then
              huff_symbol bits treeBase (load8 s (next + 1))
                (s, dest, remaining, block, nPointer, node, bitsSeen)
            else (s, dest, remaining, block, next + 1, ucast (load8 s (next + 1)), bitsSeen))
         else
           (if HuffmanNodeIsLTerm node then
              huff_symbol bits treeBase (load8 s next)
                (s, dest, remaining, block, nPointer, node, bitsSeen)
            else (s, dest, remaining, block, next, ucast (load8 s next), bitsSeen)))"

text \<open>
  \<^verbatim>\<open>for (bitsRemaining = 32; bitsRemaining > 0 && remaining > 0; --bitsRemaining, bitstream <<= 1)\<close>
\<close>

fun huff_bits :: "nat \<Rightarrow> u32 \<Rightarrow> nat \<Rightarrow> u32 \<Rightarrow> huff_vars \<Rightarrow> huff_vars" where
  "huff_bits bits treeBase 0 bitstream st = st"
| "huff_bits bits treeBase (Suc bitsRemaining) bitstream (s, dest, remaining, block, nPointer, node, bitsSeen) =
     (if remaining > 0 then
        huff_bits bits treeBase bitsRemaining (push_bit 1 bitstream)
          (huff_bit bits treeBase bitstream (s, dest, remaining, block, nPointer, node, bitsSeen))
      else (s, dest, remaining, block, nPointer, node, bitsSeen))"

text \<open>One iteration of \<^verbatim>\<open>while (remaining > 0)\<close>: a word of the bit stream.\<close>

fun huff_word :: "nat \<Rightarrow> u32 \<Rightarrow> u32 \<times> huff_vars \<Rightarrow> u32 \<times> huff_vars" where
  "huff_word bits treeBase (source, st) =
     (let bitstream = load32 (fst st) source;
          source = source + 4
      in (source, huff_bits bits treeBase 32 bitstream st))"

fun huff_remaining :: "u32 \<times> huff_vars \<Rightarrow> int" where
  "huff_remaining (source, s, dest, remaining, block, nPointer, node, bitsSeen) = remaining"

text \<open>
  Nothing bounds the walk through the tree: on a tree whose nodes never end in a leaf
  the loop reads bit stream words for ever.  Not returning is \<open>None\<close>.
\<close>

partial_function (option) huff_loop :: "nat \<Rightarrow> u32 \<Rightarrow> u32 \<times> huff_vars \<Rightarrow> (u32 \<times> huff_vars) option" where
  "huff_loop bits treeBase st =
     (if huff_remaining st > 0 then huff_loop bits treeBase (huff_word bits treeBase st)
      else Some st)"

declare huff_loop.simps [code]

text \<open>
  \<^verbatim>\<open>_unHuffman(gba)\<close>.  \<^verbatim>\<open>32 % bits\<close> divides by zero when the low nibble of the
  header is 0.
\<close>

definition unHuffman :: "gba \<Rightarrow> (fault + gba) option" where
  "unHuffman s =
     (let source = gprs s 0 AND 0xFFFFFFFC;
          dest = gprs s 1;
          header = load32 s source;
          remaining = drop_bit 8 header;
          bits = unat (header AND 0xF)
      in if bits = 0 then Some (Inl DivideByZero)
         else if 32 mod bits \<noteq> 0 then
           Some (Inr (GBALog s GBA_LOG_STUB ''Unimplemented unaligned Huffman'' []))
         else
           let padding = (4 - remaining) AND 0x3;
               remaining = remaining AND 0xFFFFFFFC;
               treesize = push_bit 1 (loadU8 s (source + 4)) + 1;
               block = 0;
               treeBase = source + 5;
               source = source + (5 + treesize);
               nPointer = treeBase;
               bitsSeen = 0;
               node = ucast (load8 s nPointer)
           in case huff_loop bits treeBase
                     (source, s, dest, uint remaining, block, nPointer, node, bitsSeen) of
                None \<Rightarrow> None
              | Some (source, s, dest, remaining, block, nPointer, node, bitsSeen) \<Rightarrow>
                  let s = (if padding \<noteq> 0 then store32 s dest block else s)
                  in Some (Inr (s\<lparr>gprs := (gprs s)(0 := source, 1 := dest)\<rparr>)))"

section \<open>Checksum and the affine transformations\<close>

text \<open>\<^verbatim>\<open>GBAChecksum(memory, size)\<close>: \<^verbatim>\<open>for (i = 0; i < size; i += 4) sum += memory[i >> 2]\<close>
  (\<open>sz\<close> and \<open>acc\<close> stand for \<^verbatim>\<open>size\<close> and \<^verbatim>\<open>sum\<close>, names that HOL has taken).\<close>

function GBAChecksum_loop :: "(nat \<Rightarrow> u32) \<Rightarrow> nat \<Rightarrow> nat \<Rightarrow> u32 \<Rightarrow> u32" where
  "GBAChecksum_loop memory sz i acc =
     (if i < sz then GBAChecksum_loop memory sz (i + 4) (acc + memory (drop_bit 2 i)) else acc)"
  by pat_completeness auto
termination
  by (relation "measure (\<lambda>(memory, sz, i, acc). sz - i)") auto

declare GBAChecksum_loop.simps [simp del]

definition GBAChecksum :: "(nat \<Rightarrow> u32) \<Rightarrow> nat \<Rightarrow> u32" where
  "GBAChecksum memory sz = GBAChecksum_loop memory sz 0 0"

text \<open>
  What the file takes from elsewhere.  The constants \<^verbatim>\<open>SIZE_BIOS\<close>,
  \<^verbatim>\<open>BASE_WORKING_RAM\<close>, \<^verbatim>\<open>BASE_OFFSET\<close> and \<^verbatim>\<open>REGION_*\<close> come from a header
  that is not part of the source at hand, and the arithmetic of the affine
  transformations, of the square root, of the arc tangent and of the MIDI frequency is
  floating point (\<^verbatim>\<open>cosf\<close>, \<^verbatim>\<open>sinf\<close>, \<^verbatim>\<open>sqrt\<close>, \<^verbatim>\<open>atan2f\<close>, \<^verbatim>\<open>powf\<close>).  Both are
  parameters: the floating-point results are functions from the integers a handler
  loads to the integers it stores.  \<open>lz77_halfword0\<close> is the indeterminate initial
  value of the uninitialised local \<^verbatim>\<open>halfword\<close> of \<^verbatim>\<open>_unLz77\<close>.
\<close>

record env =
  SIZE_BIOS :: nat
  BASE_WORKING_RAM :: int
  BASE_OFFSET :: nat
  REGION_WORKING_RAM :: int
  REGION_WORKING_IRAM :: int
  REGION_VRAM :: int
  fp_sqrt :: "u32 \<Rightarrow> u32"
  fp_atan2 :: "u32 \<Rightarrow> u32 \<Rightarrow> u32"
  fp_midi :: "u32 \<Rightarrow> u32 \<Rightarrow> u32 \<Rightarrow> u32"
  fp_bg :: "u32 \<Rightarrow> u32 \<Rightarrow> u32 \<Rightarrow> u32 \<Rightarrow> u32 \<Rightarrow> u32 \<Rightarrow> u32 \<Rightarrow> u32 \<times> u32 \<times> u32 \<times> u32 \<times> u32 \<times> u32"
  fp_obj :: "u32 \<Rightarrow> u32 \<Rightarrow> u32 \<Rightarrow> u32 \<times> u32 \<times> u32 \<times> u32"
  lz77_halfword0 :: u32

text \<open>
  One iteration of \<^verbatim>\<open>while (i--)\<close> in \<^verbatim>\<open>_BgAffineSet\<close>, on
  \<^verbatim>\<open>(state, offset, destination)\<close>: seven loads, the matrix, six stores.
\<close>

fun bg_step :: "env \<Rightarrow> gba \<times> u32 \<times> u32 \<Rightarrow> gba \<times> u32 \<times> u32" where
  "bg_step e (s, offset, destination) =
     (let ox = load32 s offset;
          oy = load32 s (offset + 4);
          cx = load16 s (offset + 8);
          cy = load16 s (offset + 10);
          sx = load16 s (offset + 12);
          sy = load16 s (offset + 14);
          theta = drop_bit 8 (loadU16 s (offset + 16));
          offset = offset + 20;
          (a, b, c, d, rx, ry) = fp_bg e ox oy cx cy sx sy theta;
          s = store16 s destination a;
          s = store16 s (destination + 2) b;
          s = store16 s (destination + 4) c;
          s = store16 s (destination + 6) d;
          s = store32 s (destination + 8) rx;
          s = store32 s (destination + 12) ry;
          destination = destination + 16
      in (s, offset, destination))"

function affine_loop :: "(gba \<times> u32 \<times> u32 \<Rightarrow> gba \<times> u32 \<times> u32) \<Rightarrow> u32 \<Rightarrow> gba \<times> u32 \<times> u32 \<Rightarrow> gba \<times> u32 \<times> u32" where
  "affine_loop body i st = (if i \<noteq> 0 then affine_loop body (i - 1) (body st) else st)"
  by pat_completeness auto
termination
  by (relation "measure (\<lambda>(body, i, st). unat i)") (auto simp: unat_minus_one unat_gt_0)

declare affine_loop.simps [simp del]

text \<open>\<^verbatim>\<open>_BgAffineSet(gba)\<close>: the registers are read and not written.\<close>

definition BgAffineSet :: "env \<Rightarrow> gba \<Rightarrow> gba" where
  "BgAffineSet e s =
     (let i = gprs s 2;
          offset = gprs s 0;
          destination = gprs s 1
      in fst (affine_loop (bg_step e) i (s, offset, destination)))"

fun obj_step :: "env \<Rightarrow> u32 \<Rightarrow> gba \<times> u32 \<times> u32 \<Rightarrow> gba \<times> u32 \<times> u32" where
  "obj_step e diff (s, offset, destination) =
     (let sx = load16 s offset;
          sy = load16 s (offset + 2);
          theta = drop_bit 8 (loadU16 s (offset + 4));
          offset = offset + 8;
          (a, b, c, d) = fp_obj e sx sy theta;
          s = store16 s destination a;
          s = store16 s (destination + diff) b;
          s = store16 s (destination + diff * 2) c;
          s = store16 s (destination + diff * 3) d;
          destination = destination + diff * 4
      in (s, offset, destination))"

definition ObjAffineSet :: "env \<Rightarrow> gba \<Rightarrow> gba" where
  "ObjAffineSet e s =
     (let i = gprs s 2;
          offset = gprs s 0;
          destination = gprs s 1;
          diff = gprs s 3
      in fst (affine_loop (obj_step e diff) i (s, offset, destination)))"

definition MidiKey2Freq :: "env \<Rightarrow> gba \<Rightarrow> gba" where
  "MidiKey2Freq e s =
     (let key = load32 s (gprs s 0 + 4)
      in s\<lparr>gprs := (gprs s)(0 := fp_midi e key (gprs s 1) (gprs s 2))\<rparr>)"

definition RegisterRamReset :: "gba \<Rightarrow> gba" where
  "RegisterRamReset s = GBALog s GBA_LOG_STUB ''RegisterRamReset unimplemented'' []"

section \<open>The dispatcher\<close>

text \<open>
  Modelled from the spec: \<^verbatim>\<open>ARMRaiseSWI\<close> and \<^verbatim>\<open>GBAHalt\<close>, routines of the CPU
  core and of the machine that are not in this file.  The spec lists them as
  \<^verbatim>\<open>raise_swi()\<close>, which synthesises a real SWI exception, and \<^verbatim>\<open>halt()\<close>, the
  external halt routine; what they do to the CPU is theirs.  Here a call is counted.
\<close>

definition ARMRaiseSWI :: "gba \<Rightarrow> gba" where
  "ARMRaiseSWI s = s\<lparr>swiRaised := swiRaised s + 1\<rparr>"

definition GBAHalt :: "gba \<Rightarrow> gba" where
  "GBAHalt s = s\<lparr>halts := halts s + 1\<rparr>"

text \<open>
  The checks ahead of each decoder: a source below \<^verbatim>\<open>BASE_WORKING_RAM\<close> is logged,
  and so is a destination outside the three regions, whose \<^verbatim>\<open>default\<close> label falls
  through to the decoder.  The registers are signed 32-bit values.
\<close>

definition region_check :: "env \<Rightarrow> string \<Rightarrow> gba \<Rightarrow> gba" where
  "region_check e name s =
     (let s = (if sint (gprs s 0) < BASE_WORKING_RAM e
               then GBALog s GBA_LOG_GAME_ERROR (''Bad '' @ name @ '' source'') [] else s);
          region = drop_bit (BASE_OFFSET e) (sint (gprs s 1))
      in if region = REGION_WORKING_RAM e \<or> region = REGION_WORKING_IRAM e \<or> region = REGION_VRAM e
         then s
         else GBALog s GBA_LOG_GAME_ERROR (''Bad '' @ name @ '' destination'') [])"

text \<open>
  \<^verbatim>\<open>GBASwi16(cpu, immediate)\<close>.  \<open>None\<close>: the handler does not return; \<open>Inl\<close>: it
  runs into undefined behaviour.  Case \<^verbatim>\<open>0xD\<close> has no \<^verbatim>\<open>break\<close> and runs on into
  case \<^verbatim>\<open>0xE\<close>.
\<close>

definition swi_log :: "gba \<Rightarrow> int \<Rightarrow> gba" where
  "swi_log s immediate =
     GBALog s GBA_LOG_SWI ''SWI: %02X r0: %08X r1: %08X r2: %08X r3: %08X''
       [word_of_int immediate, gprs s 0, gprs s 1, gprs s 2, gprs s 3]"

definition GBASwi16 :: "env \<Rightarrow> gba \<Rightarrow> int \<Rightarrow> (fault + gba) option" where
  "GBASwi16 e s immediate =
     (let s = swi_log s immediate
      in if fullBios s then Some (Inr (ARMRaiseSWI s))
         else if immediate = 0x1 then Some (Inr (RegisterRamReset s))
         else if immediate = 0x2 then Some (Inr (GBAHalt s))
         else if immediate = 0x05 \<or> immediate = 0x04 then Some (Inr (ARMRaiseSWI s))
         else if immediate = 0x6 then Some (Div s (gprs s 0) (gprs s 1))
         else if immediate = 0x7 then Some (Div s (gprs s 1) (gprs s 0))
         else if immediate = 0x8 then
           Some (Inr (s\<lparr>gprs := (gprs s)(0 := fp_sqrt e (gprs s 0))\<rparr>))
         else if immediate = 0xA then
           Some (Inr (s\<lparr>gprs := (gprs s)(0 := fp_atan2 e (gprs s 1) (gprs s 0))\<rparr>))
         else if immediate = 0xB \<or> immediate = 0xC then Some (Inr (ARMRaiseSWI s))
         else if immediate = 0xD then
           let s = s\<lparr>gprs := (gprs s)(0 := GBAChecksum (bios s) (SIZE_BIOS e))\<rparr>
           in Some (Inr (BgAffineSet e s))
         else if immediate = 0xE then Some (Inr (BgAffineSet e s))
         else if immediate = 0xF then Some (Inr (ObjAffineSet e s))
         else if immediate = 0x11 \<or> immediate = 0x12 then
           Some (Inr (unLz77 (lz77_halfword0 e) (region_check e ''LZ77'' s)
                        (if immediate = 0x11 then 1 else 2)))
         else if immediate = 0x13 then unHuffman (region_check e ''Huffman'' s)
         else if immediate = 0x14 \<or> immediate = 0x15 then
           Some (Inr (unRl (region_check e ''RL'' s) (if immediate = 0x14 then 1 else 2)))
         else if immediate = 0x16 \<or> immediate = 0x17 \<or> immediate = 0x18 then
           map_option Inr
             (unFilter (region_check e ''UnFilter'' s)
                (if immediate = 0x18 then 2 else 1) (if immediate = 0x16 then 1 else 2))
         else if immediate = 0x1F then Some (Inr (MidiKey2Freq e s))
         else Some (Inr (GBALog s GBA_LOG_STUB ''Stub software interrupt: %02X''
                           [word_of_int immediate])))"

text \<open>\<^verbatim>\<open>GBASwi32(cpu, immediate)\<close>; \<^verbatim>\<open>>>\<close> on an \<^verbatim>\<open>int\<close> is arithmetic.\<close>

definition GBASwi32 :: "env \<Rightarrow> gba \<Rightarrow> int \<Rightarrow> (fault + gba) option" where
  "GBASwi32 e s immediate = GBASwi16 e s (drop_bit 16 immediate)"

section \<open>Properties of the division\<close>

lemma sdiv_in_range:
  fixes n d :: int
  assumes n: "- (2 ^ 31) \<le> n" "n < 2 ^ 31" and d: "d \<noteq> 0" and ov: "\<not> (n = - (2 ^ 31) \<and> d = - 1)"
  shows "- (2 ^ 31) \<le> n sdiv d \<and> n sdiv d < 2 ^ 31"
proof -
  have r: "n sdiv d \<in> {- \<bar>n\<bar> .. \<bar>n\<bar>}" by (rule sdiv_int_range)
  show ?thesis
  proof (cases "n = - (2 ^ 31)")
    case False
    with n r show ?thesis by auto
  next
    case True
    with ov have d1: "d \<noteq> - 1" by simp
    have "\<bar>n\<bar> div \<bar>d\<bar> < 2 ^ 31 \<or> \<bar>d\<bar> = 1"
    proof (cases "\<bar>d\<bar> = 1")
      case False
      with d have "2 \<le> \<bar>d\<bar>" by arith
      then have "\<bar>n\<bar> div \<bar>d\<bar> \<le> \<bar>n\<bar> div 2"
        by (intro zdiv_mono2) auto
      then show ?thesis using True by simp
    qed simp
    then show ?thesis
    proof
      assume "\<bar>n\<bar> div \<bar>d\<bar> < 2 ^ 31"
      moreover have "0 \<le> \<bar>n\<bar> div \<bar>d\<bar>" by (intro pos_imp_zdiv_nonneg_iff[THEN iffD2]) (use d in auto)
      ultimately show ?thesis
        using d True by (auto simp: signed_divide_int_def sgn_if)
    next
      assume "\<bar>d\<bar> = 1"
      with d1 have "d = 1" by arith
      then show ?thesis using True by (simp add: signed_divide_int_def)
    qed
  qed
qed

lemma smod_abs_less:
  fixes n d :: int
  assumes "d \<noteq> 0"
  shows "\<bar>n smod d\<bar> < \<bar>d\<bar>"
  using assms by (simp add: signed_modulo_int_def abs_mult abs_sgn_eq)

lemma smod_abs_le:
  fixes n d :: int
  shows "\<bar>n smod d\<bar> \<le> \<bar>n\<bar>"
proof -
  have "\<bar>n\<bar> mod \<bar>d\<bar> \<le> \<bar>n\<bar>" by (rule zmod_le_nonneg_dividend) simp
  moreover have "0 \<le> \<bar>n\<bar> mod \<bar>d\<bar>"
    by (cases "d = 0") auto
  ultimately show ?thesis by (simp add: signed_modulo_int_def abs_mult abs_sgn_eq)
qed

lemma smod_sign:
  fixes n d :: int
  shows "n smod d = 0 \<or> sgn (n smod d) = sgn n"
proof (cases "d = 0")
  case True then show ?thesis by (simp add: signed_modulo_int_def sgn_if)
next
  case False 
  then have "0 \<le> \<bar>n\<bar> mod \<bar>d\<bar>" by simp
  then show ?thesis by (auto simp add: signed_modulo_int_def sgn_mult sgn_if)
qed

lemma sint_quot:
  assumes "denom \<noteq> 0" "\<not> (sint num = - (2 ^ 31) \<and> sint denom = - 1)"
  shows "sint (word_of_int (sint (num::u32) sdiv sint (denom::u32)) :: u32) = sint num sdiv sint denom"
proof -
  have d: "sint denom \<noteq> 0" using assms(1) by (simp add: signed_eq_0_iff)
  have "- (2 ^ 31) \<le> sint num" "sint num < 2 ^ 31"
    using sint_ge [of num] sint_lt [of num] by simp_all
  from sdiv_in_range [OF this d assms(2)]
  show ?thesis by (simp add: signed_of_int signed_take_bit_int_eq_self)
qed

lemma sint_rem:
  "sint (word_of_int (sint (num::u32) smod sint (denom::u32)) :: u32) = sint num smod sint denom"
proof -
  have "- (2 ^ 31) \<le> sint num" "sint num < 2 ^ 31"
    using sint_ge [of num] sint_lt [of num] by simp_all
  moreover have "\<bar>sint num smod sint denom\<bar> \<le> \<bar>sint num\<bar>" by (rule smod_abs_le)
  moreover have "sint num smod sint denom = 0 \<or> sgn (sint num smod sint denom) = sgn (sint num)"
    by (rule smod_sign)
  ultimately have "- (2 ^ 31) \<le> sint num smod sint denom" "sint num smod sint denom < 2 ^ 31"
    by (auto simp: sgn_if split: if_splits)
  then show ?thesis by (simp add: signed_of_int signed_take_bit_int_eq_self)
qed

lemma uint_abs32: "uint (abs32 (x::u32)) = \<bar>sint x\<bar>"
proof -
  have r: "- (2 ^ 31) \<le> sint x" "sint x < 2 ^ 31"
    using sint_ge [of x] sint_lt [of x] by simp_all
  have x: "x = word_of_int (sint x)" by simp
  show ?thesis
  proof (cases "sint x < 0")
    case False
    have "uint x = take_bit 32 (sint x)" by (simp add: uint_sint)
    also have "\<dots> = sint x" using False r by (simp add: take_bit_int_eq_self)
    finally show ?thesis using False by (simp add: abs32_def)
  next
    case True
    have "- x = word_of_int (- sint x)" by simp
    then have "uint (- x) = (- sint x) mod 2 ^ 32"
      by (simp only: uint_word_of_int) simp
    also have "\<dots> = - sint x" using True r by simp
    finally show ?thesis using True by (simp add: abs32_def)
  qed
qed

lemma Div_nonzero:
  assumes "denom \<noteq> 0" "\<not> (sint num = - (2 ^ 31) \<and> sint denom = - 1)"
  shows "\<exists>s'. Div s num denom = Inr s'
      \<and> sint (gprs s' 0) = sint num sdiv sint denom
      \<and> sint (gprs s' 1) = sint num smod sint denom
      \<and> uint (gprs s' 3) = \<bar>sint num sdiv sint denom\<bar>
      \<and> sint (gprs s' 0) * sint denom + sint (gprs s' 1) = sint num
      \<and> (sint (gprs s' 1) = 0 \<or> sgn (sint (gprs s' 1)) = sgn (sint num))
      \<and> \<bar>sint (gprs s' 1)\<bar> < \<bar>sint denom\<bar>"
proof -
  have d: "sint denom \<noteq> 0" using assms(1) by (simp add: signed_eq_0_iff)
  note q = sint_quot [OF assms]
  note r = sint_rem [of num denom]
  show ?thesis
    using assms smod_sign [of "sint num" "sint denom"] smod_abs_less [OF d, of "sint num"]
    by (simp add: Div_def Let_def q r uint_abs32 sdiv_mult_smod_eq)
qed

text \<open>A machine at rest, and memory holding a given list of bytes from a base address.\<close>

definition bytes_at :: "u32 \<Rightarrow> u8 list \<Rightarrow> u32 \<Rightarrow> u8" where
  "bytes_at base bs a = (if unat (a - base) < length bs then bs ! unat (a - base) else 0)"

definition gba0 :: gba where
  "gba0 = \<lparr>gprs = (\<lambda>r. 0), mem = (\<lambda>a. 0), stores = [], logs = [], swiRaised = 0, halts = 0,
           fullBios = False, bios = (\<lambda>i. 0)\<rparr>"

definition env0 :: env where
  "env0 = \<lparr>SIZE_BIOS = 0x4000, BASE_WORKING_RAM = 0x02000000, BASE_OFFSET = 24,
            REGION_WORKING_RAM = 2, REGION_WORKING_IRAM = 3, REGION_VRAM = 6,
            fp_sqrt = (\<lambda>x. 0), fp_atan2 = (\<lambda>y x. 0), fp_midi = (\<lambda>k a b. 0),
            fp_bg = (\<lambda>ox oy cx cy sx sy theta. (0, 0, 0, 0, 0, 0)),
            fp_obj = (\<lambda>sx sy theta. (0, 0, 0, 0)), lz77_halfword0 = 0\<rparr>"

definition rl_example :: gba where
  "rl_example = gba0\<lparr>gprs := (\<lambda>r. 0)(0 := 0x02000000, 1 := 0x03000000),
      mem := bytes_at 0x02000000 [0x30, 0x0A, 0, 0, 0x82, 0x41, 0x02, 0x42, 0x43, 0x44, 0x81, 0x45]\<rparr>"

definition huff_zero_example :: gba where
  "huff_zero_example = gba0\<lparr>gprs := (\<lambda>r. 0)(0 := 0x02000000, 1 := 0x03000000),
      mem := bytes_at 0x02000000 [0x20, 0x04, 0, 0, 0x01, 0xC0, 0x41, 0x42]\<rparr>"

text \<open>
  C5 (the code departs from it at one input): for a nonzero denominator the claim wants
  r0 the truncated quotient, r1 the remainder and r3 the absolute value of the quotient.
  \<open>Div_nonzero\<close> above proves this for every input but one.  For the numerator
  \<open>-2^31\<close> and the denominator \<open>-1\<close> the source calls \<^verbatim>\<open>div(INT_MIN, -1)\<close>,
  whose quotient \<open>2^31\<close> is not an \<^verbatim>\<open>int\<close>: the call is undefined and no register
  is written.
\<close>

theorem Div_INT_MIN_by_minus_one:
  "Div s 0x80000000 0xFFFFFFFF = Inl QuotientOverflow"
  by (simp add: Div_def)

text \<open>
  C6: with denominator 0, whatever the numerator \<open>n\<close>, the division returns with
  r0 = 1 if \<open>n \<ge> 0\<close> and r0 = -1 if \<open>n < 0\<close>, r1 = \<open>n\<close> and r3 = 1 (and it writes
  no other register and nothing to memory).
\<close>

theorem Div_by_zero:
  "\<exists>s'. Div s num 0 = Inr s'
      \<and> sint (gprs s' 0) = (if 0 \<le> sint num then 1 else - 1)
      \<and> gprs s' 1 = num
      \<and> sint (gprs s' 3) = 1
      \<and> (\<forall>r. r \<notin> {0, 1, 3} \<longrightarrow> gprs s' r = gprs s r)
      \<and> mem s' = mem s \<and> stores s' = stores s"
  by (simp add: Div_def Let_def GBALog_def)

theorem Div_by_zero_witness:
  "\<exists>s'. Div gba0 5 0 = Inr s' \<and> sint (gprs s' 0) = 1 \<and> gprs s' 1 = 5 \<and> sint (gprs s' 3) = 1
      \<and> gprs s' 2 = gprs gba0 2"
  using Div_by_zero [of gba0 5] by auto

section \<open>Properties of the dispatcher\<close>

lemma GBAChecksum_loop_sum:
  "GBAChecksum_loop memory sz (4 * j) acc = acc + (\<Sum>k = j..<(sz + 3) div 4. memory k)"
proof (induction "(sz + 3) div 4 - j" arbitrary: j acc)
  case 0
  then have "\<not> 4 * j < sz" by linarith
  moreover from 0 have "{j..<(sz + 3) div 4} = {}" by simp
  ultimately show ?case by (subst GBAChecksum_loop.simps) simp
next
  case (Suc n)
  then have lt: "4 * j < sz" by linarith
  have d: "drop_bit 2 (4 * j) = j" by (simp add: drop_bit_eq_div)
  from Suc have n: "n = (sz + 3) div 4 - Suc j" by simp
  have "GBAChecksum_loop memory sz (4 * j) acc = GBAChecksum_loop memory sz (4 * Suc j) (acc + memory j)"
    using lt d by (subst GBAChecksum_loop.simps) (simp add: add.commute)
  also have "\<dots> = acc + memory j + (\<Sum>k = Suc j..<(sz + 3) div 4. memory k)"
    by (rule Suc.hyps(1) [OF n])
  also have "\<dots> = acc + (\<Sum>k = j..<(sz + 3) div 4. memory k)"
    using lt by (simp add: sum.atLeast_Suc_lessThan add.assoc)
  finally show ?case .
qed

lemma GBAChecksum_sum: "GBAChecksum memory sz = (\<Sum>k<(sz + 3) div 4. memory k)"
  using GBAChecksum_loop_sum [of memory sz 0 0] by (simp add: GBAChecksum_def lessThan_atLeast0)

lemma store_gprs [simp]:
  "gprs (store8 s a v) = gprs s" "gprs (store16 s a v) = gprs s" "gprs (store32 s a v) = gprs s"
  by (simp_all add: store8_def store16_def store32_def)

lemma bg_step_gprs: "gprs (fst (bg_step e st)) = gprs (fst st)"
  by (cases st) (simp add: Let_def split: prod.splits)

lemma affine_loop_gprs:
  "(\<And>st. gprs (fst (body st)) = gprs (fst st)) \<Longrightarrow> gprs (fst (affine_loop body i st)) = gprs (fst st)"
proof (induction body i st rule: affine_loop.induct)
  case (1 body i st)
  show ?case
  proof (cases "i = 0")
    case True then show ?thesis by (subst affine_loop.simps) simp
  next
    case False
    with 1 show ?thesis by (subst affine_loop.simps) simp
  qed
qed

lemma BgAffineSet_gprs: "gprs (BgAffineSet e s) = gprs s"
  by (simp add: BgAffineSet_def Let_def affine_loop_gprs bg_step_gprs)

text \<open>
  What one entry of \<^verbatim>\<open>_BgAffineSet\<close> puts on the bus, given the six numbers that the
  floating-point arithmetic has made of it: four 16-bit stores and two 32-bit stores,
  from \<^verbatim>\<open>destination\<close> on.  And those six numbers for the entry that memory holds at
  \<^verbatim>\<open>offset\<close>: the seven loads of the source, handed to the parameter \<open>fp_bg\<close>.
\<close>

fun bg_stores :: "u32 \<Rightarrow> u32 \<times> u32 \<times> u32 \<times> u32 \<times> u32 \<times> u32 \<Rightarrow> store_ev list" where
  "bg_stores destination (a, b, c, d, rx, ry) =
     [Store16 destination (ucast a), Store16 (destination + 2) (ucast b),
      Store16 (destination + 4) (ucast c), Store16 (destination + 6) (ucast d),
      Store32 (destination + 8) rx, Store32 (destination + 12) ry]"

definition bg_entry :: "env \<Rightarrow> gba \<Rightarrow> u32 \<Rightarrow> u32 \<times> u32 \<times> u32 \<times> u32 \<times> u32 \<times> u32" where
  "bg_entry e s offset =
     fp_bg e (load32 s offset) (load32 s (offset + 4)) (load16 s (offset + 8))
       (load16 s (offset + 10)) (load16 s (offset + 12)) (load16 s (offset + 14))
       (drop_bit 8 (loadU16 s (offset + 16)))"

lemma bg_step_stores:
  "\<exists>s'. bg_step e (s, offset, destination) = (s', offset + 20, destination + 16)
      \<and> stores s' = stores s @ bg_stores destination (bg_entry e s offset)"
  by (cases "bg_entry e s offset") (simp add: Let_def bg_entry_def store16_def store32_def split: prod.splits)

lemma affine_loop_Suc:
  "unat i = Suc n \<Longrightarrow> affine_loop body i st = affine_loop body (i - 1) (body st) \<and> unat (i - 1) = n"
proof -
  assume a: "unat i = Suc n"
  then have "i \<noteq> 0" by auto
  then have "affine_loop body i st = affine_loop body (i - 1) (body st)"
    by (subst affine_loop.simps) simp
  moreover have "unat (i - 1) = n" using a \<open>i \<noteq> 0\<close> by (simp add: unat_minus_one)
  ultimately show ?thesis by simp
qed

lemma affine_loop_0: "affine_loop body 0 st = st"
  by (subst affine_loop.simps) simp

lemma affine_loop_of_nat_Suc:
  assumes "Suc k < 2 ^ 32"
  shows "affine_loop body (of_nat (Suc k) :: u32) st = affine_loop body (of_nat k) (body st)"
proof -
  have "unat (of_nat (Suc k) :: u32) = Suc k" using assms by (simp only: unat_of_nat) simp
  from affine_loop_Suc [OF this, of body st] show ?thesis by simp
qed

lemma bg_loop_trace:
  "stores (fst (affine_loop (bg_step e) i (s, offset, destination)))
     = stores s @ concat (map (\<lambda>k. bg_stores (destination + 16 * of_nat k)
          (bg_entry e (fst (affine_loop (bg_step e) (of_nat k) (s, offset, destination)))
             (offset + 20 * of_nat k))) [0..<unat i])"
proof (induction "unat i" arbitrary: i s offset destination)
  case 0
  then have "i = 0" by (simp add: unat_eq_0)
  then show ?case by (simp add: affine_loop_0)
next
  case (Suc n)
  from affine_loop_Suc [OF Suc.hyps(2) [symmetric]]
  have u: "affine_loop (bg_step e) i (s, offset, destination)
             = affine_loop (bg_step e) (i - 1) (bg_step e (s, offset, destination))"
    and n: "n = unat (i - 1)" by simp_all
  from bg_step_stores [of e s offset destination] obtain s1 where
    b: "bg_step e (s, offset, destination) = (s1, offset + 20, destination + 16)"
    and s1: "stores s1 = stores s @ bg_stores destination (bg_entry e s offset)"
    by blast
  let ?g1 = "\<lambda>k. bg_stores (destination + 16 + 16 * of_nat k)
          (bg_entry e (fst (affine_loop (bg_step e) (of_nat k) (s1, offset + 20, destination + 16)))
             (offset + 20 + 20 * of_nat k))"
  let ?g = "\<lambda>k. bg_stores (destination + 16 * of_nat k)
          (bg_entry e (fst (affine_loop (bg_step e) (of_nat k) (s, offset, destination)))
             (offset + 20 * of_nat k))"
  note r = Suc.hyps(1) [OF n, of s1 "offset + 20" "destination + 16", folded n]
  have "unat i < 2 ^ 32" using unsigned_less [of i] by simp
  then have nb: "Suc n < 2 ^ 32" using Suc.hyps(2) by simp
  have g: "?g (Suc k) = ?g1 k" if "k < n" for k
  proof -
    from that nb have "Suc k < 2 ^ 32" by simp
    from affine_loop_of_nat_Suc [OF this, of "bg_step e" "(s, offset, destination)"]
    have "affine_loop (bg_step e) (of_nat (Suc k)) (s, offset, destination)
            = affine_loop (bg_step e) (of_nat k) (s1, offset + 20, destination + 16)"
      unfolding b .
    moreover have "destination + 16 * of_nat (Suc k) = destination + 16 + 16 * of_nat k"
      "offset + 20 * of_nat (Suc k) = offset + 20 + 20 * of_nat k"
      by (simp_all add: algebra_simps)
    ultimately show ?thesis by (simp only:)
  qed
  have "map ?g [0..<Suc n] = ?g 0 # map (\<lambda>k. ?g (Suc k)) [0..<n]"
    unfolding map_upt_Suc ..
  also have "map (\<lambda>k. ?g (Suc k)) [0..<n] = map ?g1 [0..<n]"
  proof (rule map_cong)
    show "[0..<n] = [0..<n]" ..
  next
    fix k assume "k \<in> set [0..<n]"
    then have "k < n" by simp
    then show "?g (Suc k) = ?g1 k" by (rule g)
  qed
  also have "?g 0 = bg_stores destination (bg_entry e s offset)"
    by (simp add: affine_loop_0)
  finally have m: "map ?g [0..<Suc n] = bg_stores destination (bg_entry e s offset) # map ?g1 [0..<n]" .
  show ?case
    unfolding u b r s1 Suc.hyps(2) [symmetric] m by simp
qed

lemma BgAffineSet_trace:
  "stores (BgAffineSet e s)
     = stores s @ concat (map (\<lambda>k. bg_stores (gprs s 1 + 16 * of_nat k)
          (bg_entry e (fst (affine_loop (bg_step e) (of_nat k) (s, gprs s 0, gprs s 1)))
             (gprs s 0 + 20 * of_nat k))) [0..<unat (gprs s 2)])"
  unfolding BgAffineSet_def Let_def by (rule bg_loop_trace)

lemma bg_stores_length: "length (bg_stores destination v) = 6"
  by (cases v) simp

lemma bg_trace_length:
  "length (concat (map (\<lambda>k. bg_stores (f k) (g k)) [0..<n])) = 6 * n"
  by (induction n) (simp_all add: bg_stores_length)

text \<open>A BIOS whose checksum is \<open>0x02000000\<close>, one entry there, and arithmetic that permutes it.\<close>

definition bg_env :: env where
  "bg_env = env0\<lparr>SIZE_BIOS := 8,
      fp_bg := (\<lambda>ox oy cx cy sx sy theta. (cx, cy, sx, sy + theta, ox, oy))\<rparr>"

definition bg_example :: gba where
  "bg_example = gba0\<lparr>gprs := (\<lambda>r. 0)(1 := 0x03000000, 2 := 1),
      bios := (\<lambda>k. if k = 0 then 0x02000000 else 0),
      mem := bytes_at 0x02000000
               [1, 0, 0, 0,  2, 0, 0, 0,  3, 0,  4, 0,  5, 0,  6, 0,  0, 7,  0, 0]\<rparr>"

text \<open>
  C8: with the full-BIOS flag clear, SWI 0x0D sets r0 to the checksum of the BIOS, the
  sum of its 32-bit words, and then goes on into the code of SWI 0x0E: it runs
  BgAffineSet on the registers as they are then.  BgAffineSet takes its source offset
  from r0, which is now the checksum, its destination from r1 and its count from r2:
  entry \<open>k\<close> is loaded at checksum + 20 \<open>k\<close>, from memory as the entries before it have
  left it, and its six results are stored from r1 + 16 \<open>k\<close> on.  So the call adds six
  stores for each of the r2 entries to the trace.  BgAffineSet writes no register: on
  return r0 is the checksum and every other register is as before.
\<close>

theorem swi_0D_falls_through:
  assumes "\<not> fullBios s"
  shows "GBASwi16 e s 0xD =
           Some (Inr (BgAffineSet e
             ((swi_log s 0xD)\<lparr>gprs := (gprs s)(0 := GBAChecksum (bios s) (SIZE_BIOS e))\<rparr>)))
      \<and> GBASwi16 e s 0xE = Some (Inr (BgAffineSet e (swi_log s 0xE)))
      \<and> GBAChecksum (bios s) (SIZE_BIOS e) = (\<Sum>k<(SIZE_BIOS e + 3) div 4. bios s k)
      \<and> (\<exists>s'. GBASwi16 e s 0xD = Some (Inr s')
              \<and> gprs s' 0 = GBAChecksum (bios s) (SIZE_BIOS e)
              \<and> (\<forall>r. r \<noteq> 0 \<longrightarrow> gprs s' r = gprs s r)
              \<and> stores s' = stores s
                   @ concat (map (\<lambda>k. bg_stores (gprs s 1 + 16 * of_nat k)
                       (bg_entry e
                          (fst (affine_loop (bg_step e) (of_nat k)
                             ((swi_log s 0xD)\<lparr>gprs := (gprs s)(0 := GBAChecksum (bios s) (SIZE_BIOS e))\<rparr>,
                              GBAChecksum (bios s) (SIZE_BIOS e), gprs s 1)))
                          (GBAChecksum (bios s) (SIZE_BIOS e) + 20 * of_nat k)))
                     [0..<unat (gprs s 2)])
              \<and> length (stores s') = length (stores s) + 6 * unat (gprs s 2))"
proof -
  let ?C = "GBAChecksum (bios s) (SIZE_BIOS e)"
  let ?s0 = "(swi_log s 0xD)\<lparr>gprs := (gprs s)(0 := ?C)\<rparr>"
  have d: "GBASwi16 e s 0xD = Some (Inr (BgAffineSet e ?s0))"
    using assms by (simp add: GBASwi16_def Let_def swi_log_def GBALog_def)
  have e: "GBASwi16 e s 0xE = Some (Inr (BgAffineSet e (swi_log s 0xE)))"
    using assms by (simp add: GBASwi16_def Let_def swi_log_def GBALog_def)
  have g: "gprs (BgAffineSet e ?s0) = (gprs s)(0 := ?C)"
    by (simp add: BgAffineSet_gprs)
  have f: "gprs ?s0 0 = ?C" "gprs ?s0 1 = gprs s 1" "gprs ?s0 2 = gprs s 2" "stores ?s0 = stores s"
    by (simp_all add: swi_log_def GBALog_def)
  note t = BgAffineSet_trace [of e ?s0, unfolded f]
  have l: "length (stores (BgAffineSet e ?s0)) = length (stores s) + 6 * unat (gprs s 2)"
    unfolding t by (simp only: length_append bg_trace_length)
  have "gprs (BgAffineSet e ?s0) 0 = ?C" "\<forall>r. r \<noteq> 0 \<longrightarrow> gprs (BgAffineSet e ?s0) r = gprs s r"
    unfolding g by simp_all
  with d t l have x: "\<exists>s'. GBASwi16 e s 0xD = Some (Inr s')
              \<and> gprs s' 0 = ?C
              \<and> (\<forall>r. r \<noteq> 0 \<longrightarrow> gprs s' r = gprs s r)
              \<and> stores s' = stores s
                   @ concat (map (\<lambda>k. bg_stores (gprs s 1 + 16 * of_nat k)
                       (bg_entry e (fst (affine_loop (bg_step e) (of_nat k) (?s0, ?C, gprs s 1)))
                          (?C + 20 * of_nat k)))
                     [0..<unat (gprs s 2)])
              \<and> length (stores s') = length (stores s) + 6 * unat (gprs s 2)"
    by blast
  from d e GBAChecksum_sum [of "bios s" "SIZE_BIOS e"] x show ?thesis by (intro conjI)
qed

lemma bg_example_facts:
  "\<not> fullBios bg_example" "gprs bg_example 1 = 0x03000000" "gprs bg_example 2 = 1"
  "gprs bg_example (Suc 0) = 0x03000000"
  "stores bg_example = []" "SIZE_BIOS bg_env = 8"
  "(\<Sum>k<2. bios bg_example k) = 0x02000000"
  by (simp_all add: bg_example_def bg_env_def env0_def gba0_def lessThan_Suc numeral_2_eq_2)

lemma bg_example_entry:
  "bg_entry bg_env ((swi_log bg_example 0xD)\<lparr>gprs := g\<rparr>) 0x02000000 = (3, 4, 5, 13, 1, 2)"
  by (simp add: bg_entry_def bg_env_def bg_example_def swi_log_def GBALog_def gba0_def
      load32_def load16_def loadU16_def mem16_def bytes_at_def)

theorem swi_0D_falls_through_witness:
  "\<not> fullBios bg_example \<and> gprs bg_example 2 = 1
   \<and> (\<exists>s'. GBASwi16 bg_env bg_example 0xD = Some (Inr s')
         \<and> gprs s' 0 = 0x02000000 \<and> gprs s' 1 = 0x03000000
         \<and> stores s' = [Store16 0x03000000 3, Store16 0x03000002 4, Store16 0x03000004 5,
                        Store16 0x03000006 13, Store32 0x03000008 1, Store32 0x0300000C 2])"
proof -
  note t = swi_0D_falls_through [OF bg_example_facts(1), of bg_env]
  from t have c: "GBAChecksum (bios bg_example) (SIZE_BIOS bg_env) = 0x02000000"
    by (simp add: bg_example_facts)
  from t [unfolded c] obtain s' where
    r: "GBASwi16 bg_env bg_example 0xD = Some (Inr s')" "gprs s' 0 = 0x02000000"
       "\<forall>r. r \<noteq> 0 \<longrightarrow> gprs s' r = gprs bg_example r"
    and st: "stores s' = stores bg_example
                   @ concat (map (\<lambda>k. bg_stores (gprs bg_example 1 + 16 * of_nat k)
                       (bg_entry bg_env
                          (fst (affine_loop (bg_step bg_env) (of_nat k)
                             ((swi_log bg_example 0xD)\<lparr>gprs := (gprs bg_example)(0 := 0x02000000)\<rparr>,
                              0x02000000, gprs bg_example 1)))
                          (0x02000000 + 20 * of_nat k)))
                     [0..<unat (gprs bg_example 2)])"
    by blast
  from r(3) have "gprs s' 1 = 0x03000000" by (simp add: bg_example_facts)
  moreover from st have "stores s' = [Store16 0x03000000 3, Store16 0x03000002 4, Store16 0x03000004 5,
                        Store16 0x03000006 13, Store32 0x03000008 1, Store32 0x0300000C 2]"
    by (simp add: bg_example_facts affine_loop_0 bg_example_entry)
  ultimately show ?thesis using r(1,2) bg_example_facts(1,3) by blast
qed

text \<open>
  C9: with the full-BIOS flag set, whatever the immediate and the registers, the
  dispatcher returns after one call of \<^verbatim>\<open>ARMRaiseSWI\<close>, and it has written no
  register and stored nothing: registers, memory and the trace of stores are those
  from before the call.
\<close>

theorem swi_fullBios:
  assumes "fullBios s"
  shows "\<exists>s'. GBASwi16 e s immediate = Some (Inr s')
     \<and> swiRaised s' = swiRaised s + 1
     \<and> gprs s' = gprs s \<and> mem s' = mem s \<and> stores s' = stores s \<and> halts s' = halts s"
  using assms by (simp add: GBASwi16_def Let_def swi_log_def GBALog_def ARMRaiseSWI_def)

theorem swi_fullBios_witness:
  "fullBios (gba0\<lparr>fullBios := True\<rparr>)
   \<and> (\<exists>s'. GBASwi16 env0 (gba0\<lparr>fullBios := True\<rparr>) 0x11 = Some (Inr s')
        \<and> swiRaised s' = 1 \<and> gprs s' = gprs gba0 \<and> mem s' = mem gba0 \<and> stores s' = [])"
proof -
  have f: "fullBios (gba0\<lparr>fullBios := True\<rparr>)" by simp
  from swi_fullBios [OF f, of env0 "0x11"] show ?thesis by (auto simp add: gba0_def)
qed

section \<open>Termination of the run-length decoder\<close>

lemma rl_step_nonneg:
  assumes "0 < rl_remaining st"
  shows "0 \<le> rl_remaining (rl_step width st)"
proof -
  obtain s source dest remaining halfword
    where st: "st = (s, source, dest, remaining, halfword)"
    by (cases st)
  from assms st have pos: "0 < remaining" by simp
  define bh where "bh = loadU8 s source"
  show ?thesis
  proof (cases "bh AND 0x80 \<noteq> 0")
    case True
    obtain s' dest' remaining' halfword'
      where c: "rl_fill width (loadU8 s (source + 1)) (unat ((bh AND 0x7F) + 3))
                  (s, dest, remaining, halfword) = (s', dest', remaining', halfword')"
      by (cases "rl_fill width (loadU8 s (source + 1)) (unat ((bh AND 0x7F) + 3))
                  (s, dest, remaining, halfword)")
    from rl_fill_remaining [OF _ c] pos
    have "0 \<le> remaining'" unfolding min_def by (simp split: if_splits)
    with True c pos show ?thesis by (simp add: st Let_def bh_def [symmetric])
  next
    case False
    obtain s' source' dest' remaining' halfword'
      where c: "rl_copy width (unat (bh + 1)) (s, source + 1, dest, remaining, halfword)
                  = (s', source', dest', remaining', halfword')"
      by (cases "rl_copy width (unat (bh + 1)) (s, source + 1, dest, remaining, halfword)")
    from rl_copy_remaining [OF _ c] pos
    have "0 \<le> remaining'" unfolding min_def by (simp split: if_splits)
    with False c pos show ?thesis by (simp add: st Let_def bh_def [symmetric])
  qed
qed

lemma rl_loop_iterations:
  "0 \<le> rl_remaining st \<Longrightarrow>
   \<exists>n\<le>nat (rl_remaining st).
      rl_loop width st = (rl_step width ^^ n) st
    \<and> rl_remaining ((rl_step width ^^ n) st) = 0
    \<and> (\<forall>k<n. 0 < rl_remaining ((rl_step width ^^ k) st)
             \<and> rl_remaining ((rl_step width ^^ Suc k) st) < rl_remaining ((rl_step width ^^ k) st))"
proof (induction width st rule: rl_loop.induct)
  case (1 width st)
  show ?case
  proof (cases "0 < rl_remaining st")
    case False
    with 1(2) have "rl_remaining st = 0" by simp
    then show ?thesis by (subst rl_loop.simps) simp
  next
    case True
    let ?st = "rl_step width st"
    have nn: "0 \<le> rl_remaining ?st" and lt: "rl_remaining ?st < rl_remaining st"
      using True by (rule rl_step_nonneg, rule rl_step_decreases)
    from 1(1) [OF True nn] obtain n where n: "n \<le> nat (rl_remaining ?st)"
      and l: "rl_loop width ?st = (rl_step width ^^ n) ?st"
      and z: "rl_remaining ((rl_step width ^^ n) ?st) = 0"
      and d: "\<forall>k<n. 0 < rl_remaining ((rl_step width ^^ k) ?st)
             \<and> rl_remaining ((rl_step width ^^ Suc k) ?st) < rl_remaining ((rl_step width ^^ k) ?st)"
      by blast
    have sw: "\<And>k. (rl_step width ^^ k) ?st = (rl_step width ^^ Suc k) st"
      by (simp add: funpow_swap1)
    have "Suc n \<le> nat (rl_remaining st)" using n lt nn by linarith
    moreover have "rl_loop width st = (rl_step width ^^ Suc n) st"
      using True l by (subst rl_loop.simps) (simp add: funpow_swap1)
    moreover have "rl_remaining ((rl_step width ^^ Suc n) st) = 0"
      using z by (simp add: funpow_swap1)
    moreover have "\<forall>k<Suc n. 0 < rl_remaining ((rl_step width ^^ k) st)
             \<and> rl_remaining ((rl_step width ^^ Suc k) st) < rl_remaining ((rl_step width ^^ k) st)"
    proof (intro allI impI)
      fix k assume k: "k < Suc n"
      show "0 < rl_remaining ((rl_step width ^^ k) st)
             \<and> rl_remaining ((rl_step width ^^ Suc k) st) < rl_remaining ((rl_step width ^^ k) st)"
      proof (cases k)
        case 0
        with True lt show ?thesis by simp
      next
        case (Suc j)
        with k have "j < n" by simp
        with d have "0 < rl_remaining ((rl_step width ^^ j) ?st)
             \<and> rl_remaining ((rl_step width ^^ Suc j) ?st) < rl_remaining ((rl_step width ^^ j) ?st)"
          by blast
        then show ?thesis unfolding sw Suc .
      qed
    qed
    ultimately show ?thesis by blast
  qed
qed

text \<open>
  C10: the run-length decoder terminates whatever the header, the source and the
  destination.  Its main loop, started as \<^verbatim>\<open>_unRl\<close> starts it with the declared
  length in \<^verbatim>\<open>remaining\<close>, is a number \<open>n\<close> of iterations of its body, \<open>n\<close> at
  most the declared length; before each of them \<^verbatim>\<open>remaining\<close> is positive, each
  makes it strictly smaller, and the loop ends with \<^verbatim>\<open>remaining\<close> at 0.  The reason
  is that the block length that a flag byte gives is at least 3 for a compressed block
  and at least 1 for an uncompressed one.  (The padding loops that follow are the
  total functions \<open>rl_pad8\<close> and \<open>rl_pad16\<close>.)
\<close>

theorem unRl_terminates:
  "let source = gprs s 0 AND 0xFFFFFFFC;
       len = uint (drop_bit 8 (load32 s source AND 0xFFFFFF00));
       st0 = (s, source + 4, gprs s 1, len, 0)
   in (\<exists>n\<le>nat len.
         rl_loop width st0 = (rl_step width ^^ n) st0
       \<and> rl_remaining (rl_loop width st0) = 0
       \<and> (\<forall>k<n. 0 < rl_remaining ((rl_step width ^^ k) st0)
              \<and> rl_remaining ((rl_step width ^^ Suc k) st0)
                   < rl_remaining ((rl_step width ^^ k) st0)))
    \<and> (\<forall>st a. 3 \<le> unat ((loadU8 st a AND 0x7F) + 3) \<and> 1 \<le> unat (loadU8 st a + 1))"
proof -
  define source where "source = gprs s 0 AND 0xFFFFFFFC"
  define len where "len = uint (drop_bit 8 (load32 s source AND 0xFFFFFF00))"
  have "0 \<le> rl_remaining (s, source + 4, gprs s 1, len, 0)" by (simp add: len_def)
  from rl_loop_iterations [OF this, of width]
  have "\<exists>n\<le>nat len.
         rl_loop width (s, source + 4, gprs s 1, len, 0) = (rl_step width ^^ n) (s, source + 4, gprs s 1, len, 0)
       \<and> rl_remaining (rl_loop width (s, source + 4, gprs s 1, len, 0)) = 0
       \<and> (\<forall>k<n. 0 < rl_remaining ((rl_step width ^^ k) (s, source + 4, gprs s 1, len, 0))
              \<and> rl_remaining ((rl_step width ^^ Suc k) (s, source + 4, gprs s 1, len, 0))
                   < rl_remaining ((rl_step width ^^ k) (s, source + 4, gprs s 1, len, 0)))"
    by (metis rl_remaining.simps)
  moreover have "\<forall>st a. 3 \<le> unat ((loadU8 st a AND 0x7F) + 3) \<and> 1 \<le> unat (loadU8 st a + 1)"
    using rl_compressed_length rl_literal_length by blast
  ultimately show ?thesis
    unfolding Let_def source_def [symmetric] len_def [symmetric] by blast
qed

lemma load32_ex: "load32 rl_example 0x02000000 = 0x0A30"
  by (simp add: rl_example_def load32_def bytes_at_def)

theorem unRl_terminates_witness:
  "\<exists>n\<le>10. rl_loop 1 (rl_example, 0x02000004, 0x03000000, 10, 0)
            = (rl_step 1 ^^ n) (rl_example, 0x02000004, 0x03000000, 10, 0)
        \<and> (\<forall>k<n. 0 < rl_remaining ((rl_step 1 ^^ k) (rl_example, 0x02000004, 0x03000000, 10, 0)))"
proof -
  have g: "gprs rl_example 0 = 0x02000000" "gprs rl_example 1 = 0x03000000"
    by (simp_all add: rl_example_def)
  from unRl_terminates [of rl_example 1]
  show ?thesis
    unfolding Let_def g by (simp add: load32_ex) blast
qed

section \<open>Basic facts about the bus\<close>

lemma ucast_32_16_id [simp]: "(ucast (ucast (y :: u16) :: u32) :: u16) = y"
  by (rule bit_word_eqI) (auto simp: bit_ucast_iff)

lemma ucast_32_8_id [simp]: "(ucast (ucast (y :: u8) :: u32) :: u8) = y"
  by (rule bit_word_eqI) (auto simp: bit_ucast_iff)

lemma ucast_8_32_16 [simp]: "(ucast (ucast (y :: u8) :: u32) :: u16) = ucast y"
  by (rule bit_word_eqI) (auto simp: bit_ucast_iff)

lemma ucast_16_32_8 [simp]: "(ucast (ucast (y :: u16) :: u32) :: u8) = ucast y"
  by (rule bit_word_eqI) (auto simp: bit_ucast_iff)

lemma and1_odd: "(w AND 1 \<noteq> 0) = odd (w :: u32)"
  by (simp add: and_one_eq mod_2_eq_odd)

lemma store_trace [simp]:
  "stores (store8 s a v) = stores s @ [Store8 a (ucast v)]"
  "stores (store16 s a v) = stores s @ [Store16 a (ucast v)]"
  "stores (store32 s a v) = stores s @ [Store32 a v]"
  by (simp_all add: store8_def store16_def store32_def)

section \<open>The iteration of UnFilter\<close>

lemma unFilter_step_11:
  "unFilter_step 1 1 (s, source, dest, remaining, halfword, old) =
     (store8 s dest (ucast (ucast (mem s source) + old)), source + 1, dest + 1, remaining - 1,
      halfword, ucast (mem s source) + old)"
  by (simp add: Let_def loadU8_def)

lemma unFilter_step_22:
  "unFilter_step 2 2 (s, source, dest, remaining, halfword, old) =
     (store16 s dest (ucast (mem16 s source + old)), source + 2, dest + 2, remaining - 2,
      halfword, mem16 s source + old)"
  by (simp add: Let_def loadU16_def)

lemma unFilter_step_12:
  "unFilter_step 1 2 (s, source, dest, remaining, halfword, old) =
     (if source AND 1 \<noteq> 0 then
        (store16 s dest (ucast (drop_bit 8 halfword OR push_bit 8 (ucast (mem s source) + old))),
         source + 1, dest + 2, remaining - 2,
         drop_bit 8 halfword OR push_bit 8 (ucast (mem s source) + old), ucast (mem s source) + old)
      else
        (s, source + 1, dest, remaining,
         drop_bit 8 halfword OR push_bit 8 (ucast (mem s source) + old), ucast (mem s source) + old))"
  by (simp add: Let_def loadU8_def)

lemma unFilter_step_effect:
  assumes w: "(inwidth, outwidth) \<in> {(1, 1), (1, 2), (2, 2)}"
    and st: "unFilter_step inwidth outwidth (s, source, dest, remaining, halfword, old)
               = (s', source', dest', remaining', halfword', old')"
  shows "source' = source + word_of_int inwidth
       \<and> old' = (if inwidth = 1 then ucast (mem s source) else mem16 s source) + old
       \<and> (inwidth = outwidth \<or> source AND 1 \<noteq> 0 \<longrightarrow>
             remaining' = remaining - outwidth \<and> dest' = dest + word_of_int outwidth
           \<and> stores s' = stores s @ [if outwidth = 1 then Store8 dest (ucast old')
                                      else Store16 dest (if inwidth = outwidth then old' else halfword')])
       \<and> (inwidth \<noteq> outwidth \<and> source AND 1 = 0 \<longrightarrow>
             remaining' = remaining \<and> dest' = dest \<and> s' = s)
       \<and> (inwidth \<noteq> outwidth \<longrightarrow> halfword' = drop_bit 8 halfword OR push_bit 8 old')"
proof -
  from w consider "inwidth = 1 \<and> outwidth = 1" | "inwidth = 1 \<and> outwidth = 2" | "inwidth = 2 \<and> outwidth = 2"
    by auto
  then show ?thesis
  proof cases
    case 1
    with st show ?thesis by (simp only: unFilter_step_11) auto
  next
    case 2
    with st show ?thesis by (simp only: unFilter_step_12) (auto split: if_splits)
  next
    case 3
    with st show ?thesis by (simp only: unFilter_step_22) auto
  qed
qed

lemma unFilter_step_measure:
  assumes w: "(inwidth, outwidth) \<in> {(1, 1), (1, 2), (2, 2)}" and pos: "0 < unFilter_remaining st"
  shows "unFilter_measure inwidth outwidth (unFilter_step inwidth outwidth st)
           < unFilter_measure inwidth outwidth st"
proof -
  obtain s source dest remaining halfword old
    where st: "st = (s, source, dest, remaining, halfword, old)" by (cases st)
  from pos st have r: "0 < remaining" by simp
  have p: "(source + 1) AND 1 = 0 \<longleftrightarrow> source AND 1 \<noteq> 0"
    using and1_odd [of source] and1_odd [of "source + 1"] by auto
  from w consider "inwidth = 1 \<and> outwidth = 1" | "inwidth = 1 \<and> outwidth = 2" | "inwidth = 2 \<and> outwidth = 2"
    by auto
  then show ?thesis
  proof cases
    case 1
    with r show ?thesis unfolding st by (simp only: unFilter_step_11) simp
  next
    case 2
    have "Suc (2 * nat (remaining - 2)) < 2 * nat remaining" using r by linarith
    with 2 r p show ?thesis unfolding st by (simp only: unFilter_step_12) (simp split: if_splits)
  next
    case 3
    with r show ?thesis unfolding st by (simp only: unFilter_step_22) simp
  qed
qed

lemma unFilter_loop_terminates:
  assumes w: "(inwidth, outwidth) \<in> {(1, 1), (1, 2), (2, 2)}"
  shows "\<exists>st'. unFilter_loop inwidth outwidth st = Some st' \<and> unFilter_remaining st' \<le> 0"
proof (induction "unFilter_measure inwidth outwidth st" arbitrary: st rule: less_induct)
  case less
  show ?case
  proof (cases "0 < unFilter_remaining st")
    case False
    then show ?thesis by (subst unFilter_loop.simps) simp
  next
    case True
    from less [OF unFilter_step_measure [OF w True]] True
    show ?thesis by (subst unFilter_loop.simps) simp
  qed
qed

text \<open>
  C2, as the claim states it, fails: it wants every iteration, for every pair of widths,
  to take \<^verbatim>\<open>outwidth\<close> from \<^verbatim>\<open>remaining\<close> and to advance \<^verbatim>\<open>dest\<close> by it.
  With \<^verbatim>\<open>inwidth\<close> 1 and \<^verbatim>\<open>outwidth\<close> 2, the iteration at the even source
  address \<open>0x02000004\<close> leaves \<^verbatim>\<open>remaining\<close> at 4 and \<^verbatim>\<open>dest\<close> where it was, and
  stores nothing.
\<close>

theorem unFilter_step_counterexample:
  "unFilter_step 1 2 (gba0, 0x02000004, 0x03000000, 4, 0, 0)
     = (gba0, 0x02000005, 0x03000000, 4, 0, 0)"
  by (simp add: Let_def loadU8_def gba0_def)

text \<open>
  C2, amended: for the pairs of widths 1 to 1, 1 to 2 and 2 to 2, every iteration
  advances \<^verbatim>\<open>source\<close> by \<^verbatim>\<open>inwidth\<close> and sets \<^verbatim>\<open>old\<close> to the value read plus the
  old one.  When the widths are equal, every iteration stores that value at
  \<^verbatim>\<open>dest\<close>, takes \<^verbatim>\<open>outwidth\<close> from \<^verbatim>\<open>remaining\<close> and advances \<^verbatim>\<open>dest\<close> by it.
  From 1 to 2, every iteration shifts the new byte into the scratch halfword, and only
  the iterations at an odd source address store it (16 bits), decrement
  \<^verbatim>\<open>remaining\<close> and advance \<^verbatim>\<open>dest\<close>; at an even source address nothing is
  stored and \<^verbatim>\<open>remaining\<close> and \<^verbatim>\<open>dest\<close> stay.  The loop runs the body while
  \<^verbatim>\<open>remaining\<close> is positive, and it ends, with \<^verbatim>\<open>remaining\<close> no longer positive.
\<close>

theorem unFilter_iteration:
  assumes w: "(inwidth, outwidth) \<in> {(1, 1), (1, 2), (2, 2)}"
    and st: "unFilter_step inwidth outwidth (s, source, dest, remaining, halfword, old)
               = (s', source', dest', remaining', halfword', old')"
  shows "source' = source + word_of_int inwidth
       \<and> old' = (if inwidth = 1 then ucast (mem s source) else mem16 s source) + old
       \<and> (inwidth = outwidth \<or> source AND 1 \<noteq> 0 \<longrightarrow>
             remaining' = remaining - outwidth \<and> dest' = dest + word_of_int outwidth
           \<and> stores s' = stores s @ [if outwidth = 1 then Store8 dest (ucast old')
                                      else Store16 dest (if inwidth = outwidth then old' else halfword')])
       \<and> (inwidth \<noteq> outwidth \<and> source AND 1 = 0 \<longrightarrow>
             remaining' = remaining \<and> dest' = dest \<and> s' = s)
       \<and> (inwidth \<noteq> outwidth \<longrightarrow> halfword' = drop_bit 8 halfword OR push_bit 8 old')
       \<and> (\<forall>st. (0 < unFilter_remaining st \<longrightarrow>
                   unFilter_loop inwidth outwidth st
                     = unFilter_loop inwidth outwidth (unFilter_step inwidth outwidth st))
               \<and> (unFilter_remaining st \<le> 0 \<longrightarrow> unFilter_loop inwidth outwidth st = Some st)
               \<and> (\<exists>st'. unFilter_loop inwidth outwidth st = Some st' \<and> unFilter_remaining st' \<le> 0))"
proof -
  have "unFilter_loop inwidth outwidth st
          = unFilter_loop inwidth outwidth (unFilter_step inwidth outwidth st)"
    if "0 < unFilter_remaining st" for st
    using that by (subst unFilter_loop.simps) simp
  moreover have "unFilter_loop inwidth outwidth st = Some st"
    if "unFilter_remaining st \<le> 0" for st
    using that by (subst unFilter_loop.simps) simp
  ultimately show ?thesis
    using unFilter_step_effect [OF w st] unFilter_loop_terminates [OF w] by simp
qed

theorem unFilter_iteration_witness:
  "((1::int), (2::int)) \<in> {(1, 1), (1, 2), (2, 2)}
   \<and> unFilter_step 1 2 (gba0, 0x02000005, 0x03000000, 4, 0x0100, 3)
       = (store16 gba0 0x03000000 0x0301, 0x02000006, 0x03000002, 2, 0x0301, 3)
   \<and> stores (store16 gba0 0x03000000 0x0301) = stores gba0 @ [Store16 0x03000000 0x0301]
   \<and> (\<exists>st'. unFilter_loop 1 2 (gba0, 0x02000005, 0x03000000, 4, 0x0100, 3) = Some st'
          \<and> unFilter_remaining st' \<le> 0)"
proof -
  have w: "((1::int), (2::int)) \<in> {(1, 1), (1, 2), (2, 2)}" by simp
  have st: "unFilter_step 1 2 (gba0, 0x02000005, 0x03000000, 4, 0x0100, 3)
       = (store16 gba0 0x03000000 0x0301, 0x02000006, 0x03000002, 2, 0x0301, 3)"
    by (simp add: Let_def loadU8_def gba0_def)
  have "\<exists>st'. unFilter_loop 1 2 (gba0, 0x02000005, 0x03000000, 4, 0x0100, 3) = Some st'
          \<and> unFilter_remaining st' \<le> 0"
    using unFilter_iteration [OF w st] by blast
  moreover have "stores (store16 gba0 0x03000000 0x0301) = stores gba0 @ [Store16 0x03000000 0x0301]"
    using unFilter_iteration [OF w st] by simp
  ultimately show ?thesis using w st by blast
qed

section \<open>The early return of the Huffman decoder\<close>

text \<open>
  For a symbol width between 1 and 15 that does not divide 32 the handler logs and
  returns: registers, memory and the trace of stores are untouched.
\<close>

lemma unHuffman_unaligned:
  assumes "unat (load32 s (gprs s 0 AND 0xFFFFFFFC) AND 0xF) \<noteq> 0"
    and "32 mod unat (load32 s (gprs s 0 AND 0xFFFFFFFC) AND 0xF) \<noteq> 0"
  shows "\<exists>s'. unHuffman s = Some (Inr s')
           \<and> s' = GBALog s GBA_LOG_STUB ''Unimplemented unaligned Huffman'' []
           \<and> gprs s' = gprs s \<and> mem s' = mem s \<and> stores s' = stores s"
  using assms by (simp add: unHuffman_def Let_def GBALog_def)

text \<open>
  C4 (the code departs from it at the width 0): the claim wants every header whose low
  nibble does not divide 32 to make the handler log and return with nothing changed.
  \<open>unHuffman_unaligned\<close> above proves it for the widths 3, 5, 6, 7 and 9 to 15.  The
  width 0 does not divide 32 either, and there the test \<^verbatim>\<open>32 % bits\<close> divides by
  zero: on the header \<open>0x00000420\<close> the handler neither logs nor returns.
\<close>

theorem unHuffman_width_zero:
  "unHuffman huff_zero_example = Some (Inl DivideByZero)"
  by (simp add: unHuffman_def Let_def huff_zero_example_def load32_def bytes_at_def)

section \<open>What the decoders store\<close>

fun store_end :: "store_ev \<Rightarrow> u32" where
  "store_end (Store8 a v) = a + 1"
| "store_end (Store16 a v) = a + 2"
| "store_end (Store32 a v) = a + 4"

definition pending :: "int \<Rightarrow> u32 \<Rightarrow> nat" where
  "pending width dest = (if width = 2 then unat (dest AND 1) else 0)"

fun emitted :: "int \<Rightarrow> gba \<times> u32 \<times> int \<Rightarrow> gba \<times> u32 \<times> int \<Rightarrow> bool" where
  "emitted width (s, dest, remaining) (s', dest', remaining') =
     (0 \<le> remaining' \<and> remaining' \<le> remaining
      \<and> dest' = dest + word_of_int (remaining - remaining')
      \<and> gprs s' = gprs s
      \<and> (\<exists>evs. stores s' = stores s @ evs
             \<and> bytes_stored evs + pending width dest' = pending width dest + nat (remaining - remaining')
             \<and> (\<forall>ev\<in>set evs. \<exists>j. 0 < j \<and> j \<le> nat (remaining - remaining')
                     \<and> store_end ev = dest + of_nat j)))"

declare emitted.simps [simp del]

lemma bytes_stored_append [simp]: "bytes_stored (xs @ ys) = bytes_stored xs + bytes_stored ys"
  by (simp add: bytes_stored_def)

lemma bytes_stored_simps [simp]:
  "bytes_stored [] = 0" "bytes_stored (ev # evs) = store_size ev + bytes_stored evs"
  by (simp_all add: bytes_stored_def)

lemma pending_Suc: "pending width (dest + 1) = (if width = 2 then 1 - pending width dest else 0)"
  by (simp add: pending_def and_one_eq mod_2_eq_odd)

lemma pending_odd: "pending 2 dest = (if odd dest then 1 else 0)"
  by (simp add: pending_def and_one_eq mod_2_eq_odd)

lemma emitted_refl: "0 \<le> remaining \<Longrightarrow> emitted width (s, dest, remaining) (s, dest, remaining)"
  by (simp add: emitted.simps)

lemma emitted_trans:
  assumes "emitted width (s, dest, remaining) (s1, dest1, remaining1)"
    and "emitted width (s1, dest1, remaining1) (s2, dest2, remaining2)"
  shows "emitted width (s, dest, remaining) (s2, dest2, remaining2)"
proof -
  from assms(1) obtain evs1 where 1: "0 \<le> remaining1" "remaining1 \<le> remaining"
    "dest1 = dest + word_of_int (remaining - remaining1)" "gprs s1 = gprs s"
    "stores s1 = stores s @ evs1"
    "bytes_stored evs1 + pending width dest1 = pending width dest + nat (remaining - remaining1)"
    "\<forall>ev\<in>set evs1. \<exists>j. 0 < j \<and> j \<le> nat (remaining - remaining1) \<and> store_end ev = dest + of_nat j"
    by (auto simp: emitted.simps)
  from assms(2) obtain evs2 where 2: "0 \<le> remaining2" "remaining2 \<le> remaining1"
    "dest2 = dest1 + word_of_int (remaining1 - remaining2)" "gprs s2 = gprs s1"
    "stores s2 = stores s1 @ evs2"
    "bytes_stored evs2 + pending width dest2 = pending width dest1 + nat (remaining1 - remaining2)"
    "\<forall>ev\<in>set evs2. \<exists>j. 0 < j \<and> j \<le> nat (remaining1 - remaining2) \<and> store_end ev = dest1 + of_nat j"
    by (auto simp: emitted.simps)
  have d: "dest2 = dest + word_of_int (remaining - remaining2)"
    using 1(3) 2(3) by simp
  have n: "nat (remaining - remaining2) = nat (remaining - remaining1) + nat (remaining1 - remaining2)"
    using 1(1,2) 2(1,2) by linarith
  have b: "bytes_stored (evs1 @ evs2) + pending width dest2
             = pending width dest + nat (remaining - remaining2)"
    using 1(6) 2(6) n by simp
  have e: "\<exists>j. 0 < j \<and> j \<le> nat (remaining - remaining2) \<and> store_end ev = dest + of_nat j"
    if "ev \<in> set (evs1 @ evs2)" for ev
  proof (cases "ev \<in> set evs1")
    case True
    with 1(7) obtain j where "0 < j" "j \<le> nat (remaining - remaining1)" "store_end ev = dest + of_nat j"
      by blast
    with n show ?thesis by (intro exI [of _ j]) simp
  next
    case False
    with that have "ev \<in> set evs2" by simp
    with 2(7) obtain j where j: "0 < j" "j \<le> nat (remaining1 - remaining2)" "store_end ev = dest1 + of_nat j"
      by blast
    have "word_of_int (remaining - remaining1) = (of_nat (nat (remaining - remaining1)) :: u32)"
      using 1(2) by simp
    with j 1(3) have "store_end ev = dest + of_nat (nat (remaining - remaining1) + j)"
      by simp
    with j n show ?thesis by (intro exI [of _ "nat (remaining - remaining1) + j"]) simp
  qed
  show ?thesis
    using 1(1,2,4,5) 2(1,2,4,5) d b e
    by (simp del: set_append add: emitted.simps)
qed

lemma emit_byte_emitted:
  assumes "emit_byte width s dest halfword byte = (s1, halfword1)" and "0 < remaining"
  shows "emitted width (s, dest, remaining) (s1, dest + 1, remaining - 1)"
proof (cases "width = 2")
  have one: "\<exists>j>0. j \<le> Suc 0 \<and> (word_of_nat j :: u32) = 1"
    by (rule exI [of _ 1]) simp
  case False
  with assms(1) have "s1 = store8 s dest byte" by (simp add: emit_byte_def)
  with assms(2) False one show ?thesis
    by (simp add: store8_def pending_def emitted.simps) 
next
  case True
  have one: "\<exists>j>0. j \<le> Suc 0 \<and> (word_of_nat j :: u32) = 1"
    by (rule exI [of _ 1]) simp
  show ?thesis
  proof (cases "odd dest")
    case odd: True
    then have x: "dest XOR 1 = dest - 1" by (simp add: xor_one_eq)
    from assms(1) True odd have "s1 = store16 s (dest XOR 1) (halfword OR push_bit 8 byte)"
      by (auto simp add: emit_byte_def Let_def and_one_eq mod_2_eq_odd)
    with assms(2) True odd x one show ?thesis
      by (simp add: store16_def pending_odd emitted.simps) 
  next
    case even: False
    with assms(1) True have "s1 = s"
      by (auto simp add: emit_byte_def Let_def and_one_eq mod_2_eq_odd)
    with assms(2) True even show ?thesis
      by (simp add: pending_odd emitted.simps)
  qed
qed

fun lz77_out :: "lz77_vars \<Rightarrow> gba \<times> u32 \<times> int" where
  "lz77_out (s, source, dest, remaining, blockheader, blocksRemaining, halfword) = (s, dest, remaining)"

fun rl_out :: "rl_vars \<Rightarrow> gba \<times> u32 \<times> int" where
  "rl_out (s, source, dest, remaining, halfword) = (s, dest, remaining)"

lemma emitted_trans':
  "emitted width a b \<Longrightarrow> emitted width b c \<Longrightarrow> emitted width a c"
  by (cases a, cases b, cases c) (simp only: emitted_trans)

lemma lz77_copy_emitted:
  "0 \<le> remaining \<Longrightarrow>
   lz77_copy width bytes (s, disp, dest, remaining, halfword) = (s', disp', dest', remaining', halfword') \<Longrightarrow>
   emitted width (s, dest, remaining) (s', dest', remaining')"
proof (induction bytes arbitrary: s disp dest remaining halfword)
  case 0
  then show ?case by (simp add: emitted_refl)
next
  case (Suc bytes)
  show ?case
  proof (cases "remaining = 0")
    case True
    with Suc.prems show ?thesis by (simp add: emitted_refl)
  next
    case False
    with Suc.prems(1) have pos: "0 < remaining" by simp
    obtain s1 h1 where e: "emit_byte width s dest halfword (loadU8 s disp) = (s1, h1)"
      by (cases "emit_byte width s dest halfword (loadU8 s disp)")
    from Suc.prems(2) False e
    have "lz77_copy width bytes (s1, disp + 1, dest + 1, remaining - 1, h1)
            = (s', disp', dest', remaining', halfword')"
      by (simp add: Let_def)
    from Suc.IH [OF _ this] pos
    have "emitted width (s1, dest + 1, remaining - 1) (s', dest', remaining')" by simp
    with emit_byte_emitted [OF e pos] show ?thesis by (rule emitted_trans)
  qed
qed

lemma lz77_step_emitted:
  assumes "0 < lz77_remaining st"
  shows "emitted width (lz77_out st) (lz77_out (lz77_step width st))"
proof -
  obtain s source dest remaining blockheader blocksRemaining halfword
    where st: "st = (s, source, dest, remaining, blockheader, blocksRemaining, halfword)"
    by (cases st)
  from assms st have pos: "0 < remaining" by simp
  define block where "block = loadU8 s source OR push_bit 8 (loadU8 s (source + 1))"
  obtain s' disp' dest' remaining' halfword'
    where c: "lz77_copy width (lz77_bytes block)
                (s, dest - lz77_disp block - 1, dest, remaining, halfword)
              = (s', disp', dest', remaining', halfword')"
    by (cases "lz77_copy width (lz77_bytes block)
                (s, dest - lz77_disp block - 1, dest, remaining, halfword)")
  from lz77_copy_emitted [OF _ c] pos
  have 1: "emitted width (s, dest, remaining) (s', dest', remaining')" by simp
  obtain s1 h1 where e: "emit_byte width s dest halfword (loadU8 s source) = (s1, h1)"
    by (cases "emit_byte width s dest halfword (loadU8 s source)")
  note 2 = emit_byte_emitted [OF e pos]
  have 3: "emitted width (s, dest, remaining) (s, dest, remaining)"
    using pos by (intro emitted_refl) simp
  show ?thesis
    unfolding st using 1 2 3 c e
    by (simp add: Let_def block_def [symmetric])
qed

lemma lz77_loop_emitted:
  "0 \<le> lz77_remaining st \<Longrightarrow>
   emitted width (lz77_out st) (lz77_out (lz77_loop width st))
   \<and> lz77_remaining (lz77_loop width st) = 0"
proof (induction width st rule: lz77_loop.induct)
  case (1 width st)
  show ?case
  proof (cases "0 < lz77_remaining st")
    case False
    with 1(2) have z: "lz77_remaining st = 0" by simp
    then have "lz77_loop width st = st" by (subst lz77_loop.simps) simp
    with z show ?thesis by (cases st) (simp add: emitted_refl)
  next
    case True
    let ?st = "lz77_step width st"
    note e = lz77_step_emitted [OF True, of width]
    then have "0 \<le> lz77_remaining ?st" by (cases st, cases ?st) (simp add: emitted.simps)
    from 1(1) [OF True this]
    have l: "emitted width (lz77_out ?st) (lz77_out (lz77_loop width ?st))"
      and z: "lz77_remaining (lz77_loop width ?st) = 0" by simp_all
    from e l have "emitted width (lz77_out st) (lz77_out (lz77_loop width ?st))"
      by (rule emitted_trans')
    moreover have "lz77_loop width st = lz77_loop width ?st"
      using True by (subst lz77_loop.simps) simp
    ultimately show ?thesis using z by simp
  qed
qed

lemma rl_fill_emitted:
  "0 \<le> remaining \<Longrightarrow>
   rl_fill width block n (s, dest, remaining, halfword) = (s', dest', remaining', halfword') \<Longrightarrow>
   emitted width (s, dest, remaining) (s', dest', remaining')"
proof (induction n arbitrary: s dest remaining halfword)
  case 0
  then show ?case by (simp add: emitted_refl)
next
  case (Suc n)
  show ?case
  proof (cases "remaining = 0")
    case True
    with Suc.prems show ?thesis by (simp add: emitted_refl)
  next
    case False
    with Suc.prems(1) have pos: "0 < remaining" by simp
    obtain s1 h1 where e: "emit_byte width s dest halfword block = (s1, h1)"
      by (cases "emit_byte width s dest halfword block")
    from Suc.prems(2) False e
    have "rl_fill width block n (s1, dest + 1, remaining - 1, h1) = (s', dest', remaining', halfword')"
      by (simp add: Let_def)
    from Suc.IH [OF _ this] pos
    have "emitted width (s1, dest + 1, remaining - 1) (s', dest', remaining')" by simp
    with emit_byte_emitted [OF e pos] show ?thesis by (rule emitted_trans)
  qed
qed

lemma rl_copy_emitted:
  "0 \<le> remaining \<Longrightarrow>
   rl_copy width n (s, source, dest, remaining, halfword) = (s', source', dest', remaining', halfword') \<Longrightarrow>
   emitted width (s, dest, remaining) (s', dest', remaining')"
proof (induction n arbitrary: s source dest remaining halfword)
  case 0
  then show ?case by (simp add: emitted_refl)
next
  case (Suc n)
  show ?case
  proof (cases "remaining = 0")
    case True
    with Suc.prems show ?thesis by (simp add: emitted_refl)
  next
    case False
    with Suc.prems(1) have pos: "0 < remaining" by simp
    obtain s1 h1 where e: "emit_byte width s dest halfword (loadU8 s source) = (s1, h1)"
      by (cases "emit_byte width s dest halfword (loadU8 s source)")
    from Suc.prems(2) False e
    have "rl_copy width n (s1, source + 1, dest + 1, remaining - 1, h1)
            = (s', source', dest', remaining', halfword')"
      by (simp add: Let_def)
    from Suc.IH [OF _ this] pos
    have "emitted width (s1, dest + 1, remaining - 1) (s', dest', remaining')" by simp
    with emit_byte_emitted [OF e pos] show ?thesis by (rule emitted_trans)
  qed
qed

lemma rl_step_emitted:
  assumes "0 < rl_remaining st"
  shows "emitted width (rl_out st) (rl_out (rl_step width st))"
proof -
  obtain s source dest remaining halfword
    where st: "st = (s, source, dest, remaining, halfword)"
    by (cases st)
  from assms st have pos: "0 < remaining" by simp
  define bh where "bh = loadU8 s source"
  obtain s' dest' remaining' halfword'
    where f: "rl_fill width (loadU8 s (source + 1)) (unat ((bh AND 0x7F) + 3))
                (s, dest, remaining, halfword) = (s', dest', remaining', halfword')"
    by (cases "rl_fill width (loadU8 s (source + 1)) (unat ((bh AND 0x7F) + 3))
                (s, dest, remaining, halfword)")
  from rl_fill_emitted [OF _ f] pos
  have 1: "emitted width (s, dest, remaining) (s', dest', remaining')" by simp
  obtain s2 source2 dest2 remaining2 halfword2
    where c: "rl_copy width (unat (bh + 1)) (s, source + 1, dest, remaining, halfword)
                = (s2, source2, dest2, remaining2, halfword2)"
    by (cases "rl_copy width (unat (bh + 1)) (s, source + 1, dest, remaining, halfword)")
  from rl_copy_emitted [OF _ c] pos
  have 2: "emitted width (s, dest, remaining) (s2, dest2, remaining2)" by simp
  show ?thesis
    unfolding st using 1 2 f c
    by (simp add: Let_def bh_def [symmetric])
qed

lemma rl_loop_emitted:
  "0 \<le> rl_remaining st \<Longrightarrow>
   emitted width (rl_out st) (rl_out (rl_loop width st))
   \<and> rl_remaining (rl_loop width st) = 0"
proof (induction width st rule: rl_loop.induct)
  case (1 width st)
  show ?case
  proof (cases "0 < rl_remaining st")
    case False
    with 1(2) have z: "rl_remaining st = 0" by simp
    then have "rl_loop width st = st" by (subst rl_loop.simps) simp
    with z show ?thesis by (cases st) (simp add: emitted_refl)
  next
    case True
    let ?st = "rl_step width st"
    note e = rl_step_emitted [OF True, of width]
    then have "0 \<le> rl_remaining ?st" by (cases st, cases ?st) (simp add: emitted.simps)
    from 1(1) [OF True this]
    have l: "emitted width (rl_out ?st) (rl_out (rl_loop width ?st))"
      and z: "rl_remaining (rl_loop width ?st) = 0" by simp_all
    from e l have "emitted width (rl_out st) (rl_out (rl_loop width ?st))"
      by (rule emitted_trans')
    moreover have "rl_loop width st = rl_loop width ?st"
      using True by (subst rl_loop.simps) simp
    ultimately show ?thesis using z by simp
  qed
qed

lemma rl_pad8_stores:
  "rl_pad8 padding (s, dest) = (s', dest') \<Longrightarrow>
   dest' = dest + padding \<and> gprs s' = gprs s
   \<and> (\<exists>evs. stores s' = stores s @ evs \<and> bytes_stored evs = unat padding
          \<and> (\<forall>ev\<in>set evs. \<exists>j. 0 < j \<and> j \<le> unat padding \<and> ev = Store8 (dest + of_nat j - 1) 0))"
proof (induction padding "(s, dest)" arbitrary: s dest rule: rl_pad8.induct)
  case (1 padding s dest)
  show ?case
  proof (cases "padding = 0")
    case True
    with 1(2) show ?thesis by (subst (asm) rl_pad8.simps) simp
  next
    case False
    with 1(2) have r: "rl_pad8 (padding - 1) (store8 s dest 0, dest + 1) = (s', dest')"
      by (subst (asm) rl_pad8.simps) simp
    from 1(1) [OF False r] obtain evs where
      d: "dest' = dest + 1 + (padding - 1)" and g: "gprs s' = gprs s"
      and s: "stores s' = stores (store8 s dest 0) @ evs"
      and b: "bytes_stored evs = unat (padding - 1)"
      and e: "\<forall>ev\<in>set evs. \<exists>j. 0 < j \<and> j \<le> unat (padding - 1) \<and> ev = Store8 (dest + 1 + of_nat j - 1) 0"
      by (auto simp: store8_def)
    have u: "unat padding = Suc (unat (padding - 1))"
      using False by (simp add: unat_minus_one unat_gt_0)
    have "\<exists>j. 0 < j \<and> j \<le> unat padding \<and> ev = Store8 (dest + of_nat j - 1) 0"
      if "ev \<in> set (Store8 dest 0 # evs)" for ev
    proof (cases "ev = Store8 dest 0")
      case True
      then show ?thesis using u by (intro exI [of _ 1]) simp
    next
      case False
      with that e obtain j where "0 < j" "j \<le> unat (padding - 1)" "ev = Store8 (dest + 1 + of_nat j - 1) 0"
        by auto
      then show ?thesis using u by (intro exI [of _ "Suc j"]) simp
    qed
    then show ?thesis using d g s b u
      by (intro conjI exI [of _ "Store8 dest 0 # evs"]) (simp_all add: store8_def)
  qed
qed

lemma half_up_step: "0 < (p::int) \<Longrightarrow> (nat p + 1) div 2 = Suc ((nat (p - 2) + 1) div 2)"
proof (cases "p = 1")
  case True
  then show ?thesis by simp
next
  case False
  assume "0 < p"
  with False have "2 \<le> p" by simp
  then have "nat p = Suc (Suc (nat (p - 2)))" by linarith
  then show ?thesis by simp
qed

lemma rl_pad16_stores:
  "rl_pad16 padding (s, dest) = (s', dest') \<Longrightarrow>
   dest' = dest + of_nat (2 * ((nat (sint padding) + 1) div 2)) \<and> gprs s' = gprs s
   \<and> (\<exists>evs. stores s' = stores s @ evs
          \<and> bytes_stored evs = 2 * ((nat (sint padding) + 1) div 2)
          \<and> (\<forall>ev\<in>set evs. \<exists>j. 0 < j \<and> j \<le> (nat (sint padding) + 1) div 2
                  \<and> ev = Store16 (dest + of_nat (2 * j) - 2) 0))"
proof (induction padding "(s, dest)" arbitrary: s dest rule: rl_pad16.induct)
  case (1 padding s dest)
  show ?case
  proof (cases "0 < sint padding")
    case False
    with 1(2) show ?thesis by (subst (asm) rl_pad16.simps) simp
  next
    case True
    let ?m = "(nat (sint padding) + 1) div 2"
    let ?m' = "(nat (sint (padding - 2)) + 1) div 2"
    from 1(2) True have r: "rl_pad16 (padding - 2) (store16 s dest 0, dest + 2) = (s', dest')"
      by (subst (asm) rl_pad16.simps) simp
    have m: "?m = Suc ?m'"
      using True by (simp only: sint_minus_2 half_up_step)
    from 1(1) [OF True r] obtain evs where
      d: "dest' = dest + 2 + of_nat (2 * ?m')" and g: "gprs s' = gprs s"
      and s: "stores s' = stores (store16 s dest 0) @ evs"
      and b: "bytes_stored evs = 2 * ?m'"
      and e: "\<forall>ev\<in>set evs. \<exists>j. 0 < j \<and> j \<le> ?m' \<and> ev = Store16 (dest + 2 + of_nat (2 * j) - 2) 0"
      by (auto simp: store16_def)
    have "\<exists>j. 0 < j \<and> j \<le> ?m \<and> ev = Store16 (dest + of_nat (2 * j) - 2) 0"
      if "ev \<in> set (Store16 dest 0 # evs)" for ev
    proof (cases "ev = Store16 dest 0")
      case True
      then show ?thesis unfolding m by (intro exI [of _ 1]) simp
    next
      case False
      with that e obtain j where "0 < j" "j \<le> ?m'" "ev = Store16 (dest + 2 + of_nat (2 * j) - 2) 0"
        by auto
      then show ?thesis unfolding m by (intro exI [of _ "Suc j"]) simp
    qed
    then show ?thesis using d g s b unfolding m
      by (intro conjI exI [of _ "Store16 dest 0 # evs"]) (simp_all add: store16_def)
  qed
qed

definition within :: "u32 \<Rightarrow> nat \<Rightarrow> store_ev list \<Rightarrow> bool" where
  "within dest K evs = (\<forall>ev\<in>set evs. \<exists>j. 0 < j \<and> j \<le> K \<and> store_end ev = dest + of_nat j)"

fun stored :: "gba \<times> u32 \<Rightarrow> nat \<Rightarrow> gba \<times> u32 \<Rightarrow> bool" where
  "stored (s, dest) K (s', dest') =
     (dest' = dest + of_nat K \<and> gprs s' = gprs s
      \<and> (\<exists>evs. stores s' = stores s @ evs \<and> bytes_stored evs = K \<and> within dest K evs))"

declare stored.simps [simp del]

lemma within_Nil [simp]: "within dest K []"
  by (simp add: within_def)

lemma within_mono: "within dest K evs \<Longrightarrow> K \<le> K' \<Longrightarrow> within dest K' evs"
  unfolding within_def by (meson le_trans)

lemma within_append:
  assumes "within dest K1 evs1" "within (dest + of_nat K1) K2 evs2"
  shows "within dest (K1 + K2) (evs1 @ evs2)"
  unfolding within_def
proof
  fix ev assume "ev \<in> set (evs1 @ evs2)"
  then consider "ev \<in> set evs1" | "ev \<in> set evs2" by auto
  then show "\<exists>j. 0 < j \<and> j \<le> K1 + K2 \<and> store_end ev = dest + of_nat j"
  proof cases
    case 1
    with assms(1) obtain j where "0 < j" "j \<le> K1" "store_end ev = dest + of_nat j"
      unfolding within_def by blast
    then show ?thesis by (intro exI [of _ j]) simp
  next
    case 2
    with assms(2) obtain j where "0 < j" "j \<le> K2" "store_end ev = dest + of_nat K1 + of_nat j"
      unfolding within_def by blast
    then show ?thesis by (intro exI [of _ "K1 + j"]) simp
  qed
qed

lemma stored_refl: "stored (s, dest) 0 (s, dest)"
  by (simp add: stored.simps)

lemma stored_trans:
  assumes "stored (s, dest) K1 (s1, dest1)" "stored (s1, dest1) K2 (s2, dest2)"
  shows "stored (s, dest) (K1 + K2) (s2, dest2)"
proof -
  from assms(1) obtain evs1 where 1: "dest1 = dest + of_nat K1" "gprs s1 = gprs s"
    "stores s1 = stores s @ evs1" "bytes_stored evs1 = K1" "within dest K1 evs1"
    by (auto simp: stored.simps)
  from assms(2) obtain evs2 where 2: "dest2 = dest1 + of_nat K2" "gprs s2 = gprs s1"
    "stores s2 = stores s1 @ evs2" "bytes_stored evs2 = K2" "within dest1 K2 evs2"
    by (auto simp: stored.simps)
  have "within dest (K1 + K2) (evs1 @ evs2)"
    using 1(5) 2(5) unfolding 1(1) by (rule within_append)
  then show ?thesis
    using 1 2 by (simp add: stored.simps)
qed

lemma within_single: "0 < K \<Longrightarrow> store_end ev = dest + of_nat K \<Longrightarrow> within dest K [ev]"
  unfolding within_def by (intro ballI exI [of _ K]) simp

lemma stored_store8: "stored (s, dest) 1 (store8 s dest v, dest + 1)"
  by (simp add: stored.simps within_single)

lemma stored_store16: "stored (s, dest) 2 (store16 s dest v, dest + 2)"
  by (simp add: stored.simps within_single)

lemma stored_store32: "stored (s, dest) 4 (store32 s dest v, dest + 4)"
  by (simp add: stored.simps within_single)

definition round2 :: "int \<Rightarrow> nat" where
  "round2 r = 2 * ((nat r + 1) div 2)"

lemma round2_step: "0 < r \<Longrightarrow> round2 r = 2 + round2 (r - 2)"
  unfolding round2_def by (simp only: half_up_step) simp

lemma round2_nonpos: "r \<le> 0 \<Longrightarrow> round2 r = 0"
  by (simp add: round2_def)

lemma unFilter_loop_11:
  "unFilter_loop 1 1 (s, source, dest, remaining, halfword, old)
      = Some (s', source', dest', remaining', halfword', old') \<Longrightarrow>
   stored (s, dest) (nat remaining) (s', dest') \<and> source' = source + of_nat (nat remaining)"
proof (induction "nat remaining" arbitrary: s source dest remaining halfword old)
  case 0
  then show ?case by (subst (asm) unFilter_loop.simps) (simp add: stored_refl)
next
  case (Suc n)
  then have pos: "0 < remaining" by simp
  let ?s1 = "store8 s dest (ucast (ucast (mem s source) + old))"
  from Suc(3) pos
  have l: "unFilter_loop 1 1 (?s1, source + 1, dest + 1, remaining - 1, halfword, ucast (mem s source) + old)
             = Some (s', source', dest', remaining', halfword', old')"
    by (subst (asm) unFilter_loop.simps) (simp add: unFilter_step_11 del: unFilter_step.simps)
  have n: "n = nat (remaining - 1)" using Suc(2) by simp
  from Suc(1) [OF n l]
  have "stored (?s1, dest + 1) (nat (remaining - 1)) (s', dest')"
    and src: "source' = source + 1 + of_nat (nat (remaining - 1))" by simp_all
  with stored_store8 [of s dest] have "stored (s, dest) (1 + nat (remaining - 1)) (s', dest')"
    by (intro stored_trans)
  moreover have "1 + nat (remaining - 1) = nat remaining" using pos by simp
  ultimately show ?case using src pos by (simp add: nat_diff_distrib)
qed

lemma unFilter_loop_22:
  "unFilter_loop 2 2 (s, source, dest, remaining, halfword, old)
      = Some (s', source', dest', remaining', halfword', old') \<Longrightarrow>
   stored (s, dest) (round2 remaining) (s', dest') \<and> source' = source + of_nat (round2 remaining)"
proof (induction "nat remaining" arbitrary: s source dest remaining halfword old rule: less_induct)
  case less
  show ?case
  proof (cases "0 < remaining")
    case False
    with less(2) show ?thesis
      by (subst (asm) unFilter_loop.simps) (simp add: stored_refl round2_nonpos)
  next
    case pos: True
    let ?s1 = "store16 s dest (ucast (mem16 s source + old))"
    from less(2) pos
    have l: "unFilter_loop 2 2 (?s1, source + 2, dest + 2, remaining - 2, halfword, mem16 s source + old)
               = Some (s', source', dest', remaining', halfword', old')"
      by (subst (asm) unFilter_loop.simps) (simp add: unFilter_step_22 del: unFilter_step.simps)
    have "nat (remaining - 2) < nat remaining" using pos by simp
    from less(1) [OF this l]
    have "stored (?s1, dest + 2) (round2 (remaining - 2)) (s', dest')"
      and src: "source' = source + 2 + of_nat (round2 (remaining - 2))" by simp_all
    with stored_store16 [of s dest] have "stored (s, dest) (2 + round2 (remaining - 2)) (s', dest')"
      by (intro stored_trans)
    then show ?thesis using src by (simp add: round2_step [OF pos])
  qed
qed

lemma unFilter_loop_12:
  "unFilter_loop 1 2 (s, source, dest, remaining, halfword, old)
      = Some (s', source', dest', remaining', halfword', old') \<Longrightarrow>
   stored (s, dest) (round2 remaining) (s', dest')
   \<and> source' = source + of_nat (round2 remaining - (if odd source then 1 else 0))"
proof (induction "unFilter_measure 1 2 (s, source, dest, remaining, halfword, old)"
         arbitrary: s source dest remaining halfword old rule: less_induct)
  case less
  show ?case
  proof (cases "0 < remaining")
    case False
    with less(2) show ?thesis
      by (subst (asm) unFilter_loop.simps) (simp add: stored_refl round2_nonpos)
  next
    case pos: True
    define new where "new = ucast (mem s source) + old"
    define hw where "hw = drop_bit 8 halfword OR push_bit 8 new"
    have w: "((1::int), (2::int)) \<in> {(1, 1), (1, 2), (2, 2)}" by simp
    have m: "unFilter_measure 1 2 (unFilter_step 1 2 (s, source, dest, remaining, halfword, old))
            < unFilter_measure 1 2 (s, source, dest, remaining, halfword, old)"
      using pos by (intro unFilter_step_measure [OF w]) simp
    have r2: "2 \<le> round2 remaining" using round2_step [OF pos] by simp
    show ?thesis
    proof (cases "odd source")
      case True
      then have st: "unFilter_step 1 2 (s, source, dest, remaining, halfword, old)
           = (store16 s dest (ucast hw), source + 1, dest + 2, remaining - 2, hw, new)"
        by (simp only: unFilter_step_12 and1_odd hw_def new_def) simp
      from less(2) pos
      have l: "unFilter_loop 1 2 (store16 s dest (ucast hw), source + 1, dest + 2, remaining - 2, hw, new)
                 = Some (s', source', dest', remaining', halfword', old')"
        by (subst (asm) unFilter_loop.simps) (simp add: st del: unFilter_step.simps)
      from less(1) [OF m [unfolded st] l] True
      have "stored (store16 s dest (ucast hw), dest + 2) (round2 (remaining - 2)) (s', dest')"
        and src: "source' = source + 1 + of_nat (round2 (remaining - 2))" by simp_all
      with stored_store16 [of s dest] have "stored (s, dest) (2 + round2 (remaining - 2)) (s', dest')"
        by (intro stored_trans)
      then show ?thesis using src True by (simp add: round2_step [OF pos])
    next
      case False
      then have st: "unFilter_step 1 2 (s, source, dest, remaining, halfword, old)
           = (s, source + 1, dest, remaining, hw, new)"
        by (simp only: unFilter_step_12 and1_odd hw_def new_def) simp
      from less(2) pos
      have l: "unFilter_loop 1 2 (s, source + 1, dest, remaining, hw, new)
                 = Some (s', source', dest', remaining', halfword', old')"
        by (subst (asm) unFilter_loop.simps) (simp add: st del: unFilter_step.simps)
      from less(1) [OF m [unfolded st] l] False
      have "stored (s, dest) (round2 remaining) (s', dest')"
        and src: "source' = source + 1 + of_nat (round2 remaining - 1)" by simp_all
      then show ?thesis using False r2 by simp
    qed
  qed
qed

lemma c3: "(3 :: u32) = mask 2" by (simp add: mask_numeral)
lemma cfc: "(0xFFFFFFFC :: u32) = NOT (mask 2)" by (simp add: mask_numeral not_eq_complement)
lemma cff00: "(0xFFFFFF00 :: u32) = NOT (mask 8)" by (simp add: mask_numeral not_eq_complement)

lemma and3_mod: "unat ((w :: u32) AND 3) = unat w mod 4"
  unfolding c3 by (simp add: unsigned_take_bit_eq take_bit_eq_mod unat_mod flip: take_bit_eq_mask)

lemma clear2_shift: "(w :: u32) AND 0xFFFFFFFC = push_bit 2 (drop_bit 2 w)"
proof -
  have aux: "Suc (Suc (n - 2)) = n" if "2 \<le> n" for n using that by simp
  show ?thesis
    unfolding cfc by (rule bit_word_eqI) (auto simp: bit_simps aux not_less)
qed

lemma clear2: "unat ((w :: u32) AND 0xFFFFFFFC) = 4 * (unat w div 4)"
proof -
  have "unat w div 4 * 4 \<le> unat w" by simp
  also have "\<dots> < 2 ^ 32" using unsigned_less [of w] by simp
  finally have "4 * (unat w div 4) < 2 ^ 32" by simp
  then show ?thesis
    by (simp add: clear2_shift push_bit_eq_mult drop_bit_eq_div unat_word_ariths unat_div)
qed

lemma drop8_and: "drop_bit 8 ((h :: u32) AND 0xFFFFFF00) = drop_bit 8 h"
  unfolding cff00 by (rule bit_word_eqI) (auto simp: bit_simps dest: bit_imp_le_length)

lemma len_bound: "unat (drop_bit 8 (h :: u32)) < 2 ^ 24"
proof -
  have "unat h < 2 ^ 32" using unsigned_less [of h] by simp
  then have "unat h div 2 ^ 8 < 2 ^ 24" by simp
  then show ?thesis by (simp add: drop_bit_eq_div unat_div)
qed

lemma sub_mod4: "u \<le> 4 * k + 4 \<Longrightarrow> (4 * k + 4 - u) mod 4 = (4 - u mod 4) mod (4::nat)"
proof -
  assume le: "u \<le> 4 * k + 4"
  define q where "q = u div 4"
  define r where "r = u mod 4"
  have u: "u = 4 * q + r" and r: "r < 4" by (simp_all add: q_def r_def)
  show ?thesis
  proof (cases "r = 0")
    case True
    with u le have "q \<le> k + 1" by simp
    then have "4 * k + 4 - u = 4 * (k + 1 - q)" using u True by simp
    then show ?thesis using True r_def by simp
  next
    case False
    with u le r have "q \<le> k" by simp
    then have "4 * k + 4 - u = (4 - r) + 4 * (k - q)" using u r by simp
    then have "(4 * k + 4 - u) mod 4 = (4 - r) mod 4" by (simp only: mod_mult_self2)
    then show ?thesis using r_def by simp
  qed
qed

lemma pad_value: "unat ((4 - (w :: u32)) AND 3) = (4 - unat w mod 4) mod 4"
proof -
  have lt: "unat w < 4 * 2 ^ 30" using unsigned_less [of w] by simp
  have "unat (4 - w) mod 4 = (4 - unat w mod 4) mod 4"
  proof (cases "unat w \<le> 4")
    case True
    then have "w \<le> 4" by (simp add: word_le_nat_alt)
    then have "unat (4 - w) = 4 - unat w" by (simp add: unat_sub)
    with True sub_mod4 [of "unat w" 0] show ?thesis by simp
  next
    case False
    then have "unat (4 - w) = 2 ^ 32 + unat (4::u32) - unat w"
       by (subst unat_sub_if_size) (simp add: word_size)
    then have "unat (4 - w) = 4 * 2 ^ 30 + 4 - unat w" by simp
    moreover have "(4 * 2 ^ 30 + 4 - unat w) mod 4 = (4 - unat w mod 4) mod 4"
      using lt by (intro sub_mod4) linarith
    ultimately show ?thesis by (simp only:)
  qed
  then show ?thesis by (simp only: and3_mod)
qed

fun flushed :: "gba \<times> u32 \<times> int \<Rightarrow> gba \<times> u32 \<times> int \<Rightarrow> bool" where
  "flushed (s, dest, remaining) (s', dest', remaining') =
     (remaining' \<le> remaining \<and> 4 dvd (remaining - remaining')
      \<and> (remaining' = remaining \<or> - 4 < remaining')
      \<and> stored (s, dest) (nat (remaining - remaining')) (s', dest'))"

declare flushed.simps [simp del]

fun hv_out :: "huff_vars \<Rightarrow> gba \<times> u32 \<times> int" where
  "hv_out (s, dest, remaining, block, nPointer, node, bitsSeen) = (s, dest, remaining)"

lemma flushed_refl: "flushed a a"
  by (cases a) (simp add: flushed.simps stored_refl)

lemma flushed_trans:
  assumes "flushed a b" "flushed b c"
  shows "flushed a c"
proof -
  obtain s dest r where a: "a = (s, dest, r)" by (cases a)
  obtain s1 dest1 r1 where b: "b = (s1, dest1, r1)" by (cases b)
  obtain s2 dest2 r2 where c: "c = (s2, dest2, r2)" by (cases c)
  from assms(1) have 1: "r1 \<le> r" "4 dvd (r - r1)" "r1 = r \<or> - 4 < r1"
    "stored (s, dest) (nat (r - r1)) (s1, dest1)"
    by (simp_all add: a b flushed.simps)
  from assms(2) have 2: "r2 \<le> r1" "4 dvd (r1 - r2)" "r2 = r1 \<or> - 4 < r2"
    "stored (s1, dest1) (nat (r1 - r2)) (s2, dest2)"
    by (simp_all add: b c flushed.simps)
  have "nat (r - r1) + nat (r1 - r2) = nat (r - r2)" using 1(1) 2(1) by linarith
  with stored_trans [OF 1(4) 2(4)] have "stored (s, dest) (nat (r - r2)) (s2, dest2)" by simp
  moreover have "4 dvd (r - r2)"
    using dvd_add [OF 1(2) 2(2)] by simp
  moreover have "r2 = r \<or> - 4 < r2" using 1(3) 2(3) by auto
  ultimately show ?thesis using 1(1) 2(1) by (simp add: a c flushed.simps)
qed

lemma huff_symbol_flushed:
  assumes "0 < remaining"
  shows "flushed (s, dest, remaining)
           (hv_out (huff_symbol bits treeBase readBits (s, dest, remaining, block, nPointer, node, bitsSeen)))"
proof (cases "bitsSeen + bits = 32")
  case True
  have "stored (s, dest) 4 (store32 s dest (block OR push_bit bitsSeen (readBits AND (push_bit bits 1 - 1))), dest + 4)"
    by (rule stored_store32)
  with True assms show ?thesis by (simp add: Let_def flushed.simps)
next
  case False
  then show ?thesis by (simp add: Let_def flushed_refl)
qed

lemma huff_bit_flushed:
  assumes "0 < remaining"
  shows "flushed (s, dest, remaining)
           (hv_out (huff_bit bits treeBase bitstream (s, dest, remaining, block, nPointer, node, bitsSeen)))"
  using huff_symbol_flushed [OF assms]
  by (simp add: Let_def flushed_refl del: huff_symbol.simps)

lemma huff_bits_flushed:
  "flushed (hv_out st) (hv_out (huff_bits bits treeBase n bitstream st))"
proof (induction n arbitrary: bitstream st)
  case 0
  show ?case by (simp add: flushed_refl)
next
  case (Suc n)
  obtain s dest remaining block nPointer node bitsSeen
    where st: "st = (s, dest, remaining, block, nPointer, node, bitsSeen)" by (cases st)
  show ?case
  proof (cases "0 < remaining")
    case False
    then show ?thesis by (simp add: st flushed_refl)
  next
    case True
    let ?st1 = "huff_bit bits treeBase bitstream (s, dest, remaining, block, nPointer, node, bitsSeen)"
    from huff_bit_flushed [OF True] have "flushed (hv_out st) (hv_out ?st1)" by (simp add: st)
    from flushed_trans [OF this Suc]
    show ?thesis using True by (simp add: st del: huff_bit.simps)
  qed
qed

fun huff_out :: "u32 \<times> huff_vars \<Rightarrow> gba \<times> u32 \<times> int" where
  "huff_out (source, st) = hv_out st"

lemma huff_word_flushed: "flushed (huff_out st) (huff_out (huff_word bits treeBase st))"
  by (cases st) (simp add: Let_def huff_bits_flushed del: huff_bits.simps)

lemma huff_loop_flushed:
  assumes a: "huff_loop bits treeBase st = Some st'"
  shows "flushed (huff_out st) (huff_out st') \<and> huff_remaining st' \<le> 0"
proof (rule huff_loop.raw_induct
    [where P = "\<lambda>bits treeBase st st'. flushed (huff_out st) (huff_out st') \<and> huff_remaining st' \<le> 0",
     OF _ a])
  fix f bits treeBase st st'
  assume IH: "\<And>bits treeBase st st'. f bits treeBase st = Some st' \<Longrightarrow>
                flushed (huff_out st) (huff_out st') \<and> huff_remaining st' \<le> 0"
    and eq: "(if 0 < huff_remaining st then f bits treeBase (huff_word bits treeBase st) else Some st)
               = Some st'"
  show "flushed (huff_out st) (huff_out st') \<and> huff_remaining st' \<le> 0"
  proof (cases "0 < huff_remaining st")
    case True
    with eq have "f bits treeBase (huff_word bits treeBase st) = Some st'" by simp
    from IH [OF this] huff_word_flushed [of st bits treeBase]
    show ?thesis by (auto intro: flushed_trans)
  next
    case False
    with eq show ?thesis by (auto simp: flushed_refl)
  qed
qed

lemma huff_loop_result:
  assumes "huff_loop bits treeBase (source, s, dest, remaining, block, nPointer, node, bitsSeen)
             = Some (source', s', dest', remaining', block', nPointer', node', bitsSeen')"
    and "0 \<le> remaining" "4 dvd remaining"
  shows "remaining' = 0 \<and> stored (s, dest) (nat remaining) (s', dest')"
proof -
  from huff_loop_flushed [OF assms(1)]
  have f: "remaining' \<le> remaining" "4 dvd (remaining - remaining')"
      "remaining' = remaining \<or> - 4 < remaining'"
      "stored (s, dest) (nat (remaining - remaining')) (s', dest')"
    and le: "remaining' \<le> 0"
    by (simp_all add: flushed.simps)
  have "4 dvd remaining - (remaining - remaining')"
    using assms(3) f(2) by (rule dvd_diff)
  then have "4 dvd remaining'" by simp
  with f(3) le assms(2) have "remaining' = 0"
    by (auto elim!: dvdE)
  with f(4) show ?thesis by simp
qed

definition header_length :: "u32 \<Rightarrow> nat" where
  "header_length header = unat (drop_bit 8 header)"

fun lz77_source :: "lz77_vars \<Rightarrow> u32" where
  "lz77_source (s, source, dest, remaining, blockheader, blocksRemaining, halfword) = source"

fun rl_source :: "rl_vars \<Rightarrow> u32" where
  "rl_source (s, source, dest, remaining, halfword) = source"

lemma uint_header_length: "uint (drop_bit 8 (h AND 0xFFFFFF00)) = int (header_length h)"
  by (simp only: drop8_and header_length_def) simp

lemma uint_header_length': "uint (drop_bit 8 h) = int (header_length h)"
  by (simp add: header_length_def)

lemma emitted_within:
  assumes "emitted width (s, dest, int len) (s', dest', 0)"
  shows "dest' = dest + of_nat len \<and> gprs s' = gprs s
       \<and> (\<exists>evs. stores s' = stores s @ evs
              \<and> bytes_stored evs + pending width (dest + of_nat len) = pending width dest + len
              \<and> within dest len evs)"
  using assms by (auto simp: emitted.simps within_def)

lemma unLz77_result:
  fixes s :: gba and width :: int and h0 :: u32
  defines "len \<equiv> header_length (load32 s (gprs s 0))"
  defines "final \<equiv> lz77_loop width (s, gprs s 0 + 4, gprs s 1, int len, 0, 0, h0)"
  shows "gprs (unLz77 h0 s width) = (gprs s)(0 := lz77_source final, 1 := gprs s 1 + of_nat len, 3 := 0)
       \<and> (\<exists>evs. stores (unLz77 h0 s width) = stores s @ evs
              \<and> bytes_stored evs + pending width (gprs s 1 + of_nat len) = pending width (gprs s 1) + len
              \<and> within (gprs s 1) len evs)"
proof -
  obtain s' source' dest' remaining' blockheader' blocksRemaining' halfword'
    where f: "final = (s', source', dest', remaining', blockheader', blocksRemaining', halfword')"
    by (cases final)
  have "0 \<le> lz77_remaining (s, gprs s 0 + 4, gprs s 1, int len, 0, 0, h0)" by simp
  from lz77_loop_emitted [OF this, of width, folded final_def]
  have "emitted width (s, gprs s 1, int len) (s', dest', 0)" and "remaining' = 0"
    by (auto simp add: f)
  from emitted_within [OF this(1)] obtain evs where
    e: "dest' = gprs s 1 + of_nat len" "gprs s' = gprs s" "stores s' = stores s @ evs"
    "bytes_stored evs + pending width (gprs s 1 + of_nat len) = pending width (gprs s 1) + len"
    "within (gprs s 1) len evs" by blast
  have u: "unLz77 h0 s width = s'\<lparr>gprs := (gprs s')(0 := source', 1 := dest', 3 := 0)\<rparr>"
    unfolding unLz77_def Let_def uint_header_length len_def [symmetric]
    using f by (simp add: final_def)
  show ?thesis unfolding u using e f by simp
qed

lemma unRl_main:
  fixes s :: gba and width :: int
  defines "source \<equiv> gprs s 0 AND 0xFFFFFFFC"
  defines "len \<equiv> header_length (load32 s source)"
  defines "final \<equiv> rl_loop width (s, source + 4, gprs s 1, int len, 0)"
  shows "\<exists>s' halfword' evs. final = (s', rl_source final, gprs s 1 + of_nat len, 0, halfword')
          \<and> gprs s' = gprs s \<and> stores s' = stores s @ evs
          \<and> bytes_stored evs + pending width (gprs s 1 + of_nat len) = pending width (gprs s 1) + len
          \<and> within (gprs s 1) len evs"
proof -
  obtain s' source' dest' remaining' halfword'
    where f: "final = (s', source', dest', remaining', halfword')"
    by (cases final)
  have "0 \<le> rl_remaining (s, source + 4, gprs s 1, int len, 0)" by simp
  from rl_loop_emitted [OF this, of width, folded final_def]
  have "emitted width (s, gprs s 1, int len) (s', dest', 0)" and "remaining' = 0"
    by (auto simp add: f)
  from emitted_within [OF this(1)] this(2) f show ?thesis by auto
qed

lemma small_sint:
  fixes p :: u32
  assumes "unat p \<le> 3"
  shows "sint p = int (unat p)" and "sint (p - 1) = int (unat p) - 1"
proof -
  have "int (unat p) \<le> int 3" using assms by (simp only: of_nat_le_iff)
  then have b: "0 \<le> uint p" "uint p \<le> 3" by simp_all
  have "(- (2 ^ 31) :: int) \<le> - 1" "(3 :: int) < 2 ^ 31" by simp_all
  with b have r: "- (2 ^ 31) \<le> uint p - 1" "- (2 ^ 31) \<le> uint p" "uint p < 2 ^ 31" "uint p - 1 < 2 ^ 31"
    by linarith+
  have s0: "signed_take_bit 31 (uint p) = uint p"
    using r(2,3) by (rule signed_take_bit_int_eq_self)
  have s1: "signed_take_bit 31 (uint p - 1) = uint p - 1"
    using r(1,4) by (rule signed_take_bit_int_eq_self)
  have "sint (word_of_int (uint p) :: u32) = uint p"
    by (simp only: signed_of_int) (simp add: s0)
  then show "sint p = int (unat p)" by simp
  have "p - 1 = word_of_int (uint p - 1)" by simp
  moreover have "sint (word_of_int (uint p - 1) :: u32) = uint p - 1"
    by (simp only: signed_of_int) (simp add: s1)
  ultimately show "sint (p - 1) = int (unat p) - 1" by simp
qed

definition pad4 :: "nat \<Rightarrow> nat" where
  "pad4 len = (4 - len mod 4) mod 4"

lemma rl_padding_value:
  "unat ((4 - drop_bit 8 (h AND 0xFFFFFF00)) AND (3 :: u32)) = pad4 (header_length h)"
  by (simp only: drop8_and pad_value header_length_def pad4_def)

lemma pad4_le: "pad4 len \<le> 3"
  unfolding pad4_def by (cases "len mod 4 = 0") simp_all

lemma rl_pad8_within:
  assumes "rl_pad8 padding (s, dest) = (s', dest')"
  shows "dest' = dest + of_nat (unat padding) \<and> gprs s' = gprs s
       \<and> (\<exists>evs. stores s' = stores s @ evs \<and> bytes_stored evs = unat padding
              \<and> within dest (unat padding) evs \<and> (\<forall>ev\<in>set evs. \<exists>a. ev = Store8 a 0))"
proof -
  from rl_pad8_stores [OF assms] obtain evs where
    e: "dest' = dest + padding" "gprs s' = gprs s" "stores s' = stores s @ evs"
       "bytes_stored evs = unat padding"
       "\<forall>ev\<in>set evs. \<exists>j. 0 < j \<and> j \<le> unat padding \<and> ev = Store8 (dest + of_nat j - 1) 0"
    by blast
  have "within dest (unat padding) evs"
    unfolding within_def
  proof
    fix ev assume "ev \<in> set evs"
    with e(5) obtain j where "0 < j" "j \<le> unat padding" "ev = Store8 (dest + of_nat j - 1) 0" by blast
    then show "\<exists>j. 0 < j \<and> j \<le> unat padding \<and> store_end ev = dest + of_nat j"
      by (intro exI [of _ j]) simp
  qed
  moreover have "\<forall>ev\<in>set evs. \<exists>a. ev = Store8 a 0" using e(5) by blast
  ultimately show ?thesis using e(1-4) by auto
qed

lemma rl_pad16_within:
  assumes "rl_pad16 padding (s, dest) = (s', dest')"
  defines "m \<equiv> (nat (sint padding) + 1) div 2"
  shows "dest' = dest + of_nat (2 * m) \<and> gprs s' = gprs s
       \<and> (\<exists>evs. stores s' = stores s @ evs \<and> bytes_stored evs = 2 * m
              \<and> within dest (2 * m) evs \<and> (\<forall>ev\<in>set evs. \<exists>a. ev = Store16 a 0))"
proof -
  from rl_pad16_stores [OF assms(1), folded m_def] obtain evs where
    e: "dest' = dest + of_nat (2 * m)" "gprs s' = gprs s" "stores s' = stores s @ evs"
       "bytes_stored evs = 2 * m"
       "\<forall>ev\<in>set evs. \<exists>j. 0 < j \<and> j \<le> m \<and> ev = Store16 (dest + of_nat (2 * j) - 2) 0"
    by blast
  have "within dest (2 * m) evs"
    unfolding within_def
  proof
    fix ev assume "ev \<in> set evs"
    with e(5) obtain j where "0 < j" "j \<le> m" "ev = Store16 (dest + of_nat (2 * j) - 2) 0" by blast
    then show "\<exists>j. 0 < j \<and> j \<le> 2 * m \<and> store_end ev = dest + of_nat j"
      by (intro exI [of _ "2 * j"]) simp
  qed
  moreover have "\<forall>ev\<in>set evs. \<exists>a. ev = Store16 a 0" using e(5) by blast
  ultimately show ?thesis using e(1-4) by auto
qed

lemma unRl_bytes:
  fixes s :: gba and width :: int
  assumes w: "width \<noteq> 2"
  defines "source \<equiv> gprs s 0 AND 0xFFFFFFFC"
  defines "len \<equiv> header_length (load32 s source)"
  defines "final \<equiv> rl_loop width (s, source + 4, gprs s 1, int len, 0)"
  shows "gprs (unRl s width) = (gprs s)(0 := rl_source final, 1 := gprs s 1 + of_nat (len + pad4 len))
       \<and> (\<exists>evs pads. stores (unRl s width) = stores s @ evs @ pads
              \<and> bytes_stored evs = len \<and> bytes_stored pads = pad4 len
              \<and> within (gprs s 1) (len + pad4 len) (evs @ pads)
              \<and> (\<forall>ev\<in>set pads. \<exists>a. ev = Store8 a 0))"
proof -
  from unRl_main [of width s, folded source_def len_def final_def]
  obtain s1 halfword1 evs where
    f: "final = (s1, rl_source final, gprs s 1 + of_nat len, 0, halfword1)"
    and g: "gprs s1 = gprs s" and st: "stores s1 = stores s @ evs"
    and b: "bytes_stored evs + pending width (gprs s 1 + of_nat len) = pending width (gprs s 1) + len"
    and wi: "within (gprs s 1) len evs" unfolding final_def by blast
  define padding :: u32 where "padding = (4 - drop_bit 8 (load32 s source AND 0xFFFFFF00)) AND 3"
  have up: "unat padding = pad4 len"
    unfolding padding_def len_def by (rule rl_padding_value)
  obtain s2 dest2 where p: "rl_pad8 padding (s1, gprs s 1 + of_nat len) = (s2, dest2)"
    by (cases "rl_pad8 padding (s1, gprs s 1 + of_nat len)")
  from rl_pad8_within [OF p] obtain pads where
    e: "dest2 = gprs s 1 + of_nat len + of_nat (unat padding)" "gprs s2 = gprs s1"
       "stores s2 = stores s1 @ pads" "bytes_stored pads = unat padding"
       "within (gprs s 1 + of_nat len) (unat padding) pads" "\<forall>ev\<in>set pads. \<exists>a. ev = Store8 a 0"
    by blast
  have u: "unRl s width = s2\<lparr>gprs := (gprs s2)(0 := rl_source final, 1 := dest2)\<rparr>"
    unfolding unRl_def Let_def source_def [symmetric] uint_header_length len_def [symmetric]
      final_def [symmetric] padding_def [symmetric]
    using w p by (subst f) simp
  have "within (gprs s 1) (len + pad4 len) (evs @ pads)"
    using wi e(5) unfolding up by (rule within_append)
  moreover have "bytes_stored evs = len" using b w by (simp add: pending_def)
  ultimately have "\<exists>evs pads. stores s2 = stores s @ evs @ pads
              \<and> bytes_stored evs = len \<and> bytes_stored pads = pad4 len
              \<and> within (gprs s 1) (len + pad4 len) (evs @ pads)
              \<and> (\<forall>ev\<in>set pads. \<exists>a. ev = Store8 a 0)"
    using e st up by auto
  moreover have "(gprs s2)(0 := rl_source final, 1 := dest2)
                   = (gprs s)(0 := rl_source final, 1 := gprs s 1 + of_nat (len + pad4 len))"
    using e g up by (simp add: add.assoc)
  ultimately show ?thesis unfolding u by simp
qed

lemma pending_le: "pending width dest \<le> 1"
  by (simp add: pending_def and_one_eq mod_2_eq_odd)

lemma unRl_halfwords:
  fixes s :: gba
  defines "source \<equiv> gprs s 0 AND 0xFFFFFFFC"
  defines "len \<equiv> header_length (load32 s source)"
  defines "final \<equiv> rl_loop 2 (s, source + 4, gprs s 1, int len, 0)"
  defines "odd_end \<equiv> pending 2 (gprs s 1 + of_nat len)"
  defines "m \<equiv> (nat (int (pad4 len) - int odd_end) + 1) div 2"
  shows "gprs (unRl s 2)
           = (gprs s)(0 := rl_source final, 1 := gprs s 1 + of_nat (len + odd_end + 2 * m))
       \<and> (\<exists>evs pads. stores (unRl s 2) = stores s @ evs @ pads
              \<and> bytes_stored evs + odd_end = pending 2 (gprs s 1) + len
              \<and> bytes_stored pads = 2 * m
              \<and> within (gprs s 1) (len + odd_end + 2 * m) (evs @ pads)
              \<and> (\<forall>ev\<in>set pads. \<exists>a. ev = Store16 a 0))"
proof -
  from unRl_main [of 2 s, folded source_def len_def]
  obtain s1 halfword1 evs where
    f: "final = (s1, rl_source final, gprs s 1 + of_nat len, 0, halfword1)"
    and g: "gprs s1 = gprs s" and st: "stores s1 = stores s @ evs"
    and b: "bytes_stored evs + odd_end = pending 2 (gprs s 1) + len"
    and wi: "within (gprs s 1) len evs" unfolding final_def odd_end_def by blast
  define padding :: u32 where "padding = (4 - drop_bit 8 (load32 s source AND 0xFFFFFF00)) AND 3"
  have up: "unat padding = pad4 len"
    unfolding padding_def len_def by (rule rl_padding_value)
  then have u3: "unat padding \<le> 3" using pad4_le [of len] by simp
  define dest1 where "dest1 = gprs s 1 + of_nat len"
  define padding' where "padding' = (if dest1 AND 1 \<noteq> 0 then padding - 1 else padding)"
  define dest1' where "dest1' = (if dest1 AND 1 \<noteq> 0 then dest1 + 1 else dest1)"
  have oe: "odd_end = (if dest1 AND 1 \<noteq> 0 then 1 else 0)"
    unfolding odd_end_def dest1_def by (simp add: pending_odd and_one_eq mod_2_eq_odd)
  have sp: "sint padding' = int (pad4 len) - int odd_end"
    unfolding padding'_def oe using small_sint [OF u3] up by simp
  have d1: "dest1' = gprs s 1 + of_nat (len + odd_end)"
    unfolding dest1'_def oe dest1_def by simp
  obtain s2 dest2 where p: "rl_pad16 padding' (s1, dest1') = (s2, dest2)"
    by (cases "rl_pad16 padding' (s1, dest1')")
  from rl_pad16_within [OF p, unfolded sp, folded m_def] obtain pads where
    e: "dest2 = dest1' + of_nat (2 * m)" "gprs s2 = gprs s1"
       "stores s2 = stores s1 @ pads" "bytes_stored pads = 2 * m"
       "within dest1' (2 * m) pads" "\<forall>ev\<in>set pads. \<exists>a. ev = Store16 a 0"
    by blast
  have u: "unRl s 2 = s2\<lparr>gprs := (gprs s2)(0 := rl_source final, 1 := dest2)\<rparr>"
    unfolding unRl_def Let_def source_def [symmetric] uint_header_length len_def [symmetric]
      final_def [symmetric] padding_def [symmetric]
    using p by (subst f) (simp add: dest1_def padding'_def dest1'_def split: if_splits)
  have "within (gprs s 1) (len + odd_end) evs" using wi by (rule within_mono) simp
  from within_append [OF this e(5) [unfolded d1]]
  have "within (gprs s 1) (len + odd_end + 2 * m) (evs @ pads)" .
  then have "\<exists>evs pads. stores s2 = stores s @ evs @ pads
              \<and> bytes_stored evs + odd_end = pending 2 (gprs s 1) + len
              \<and> bytes_stored pads = 2 * m
              \<and> within (gprs s 1) (len + odd_end + 2 * m) (evs @ pads)
              \<and> (\<forall>ev\<in>set pads. \<exists>a. ev = Store16 a 0)"
    using e st b by auto
  moreover have "(gprs s2)(0 := rl_source final, 1 := dest2)
                   = (gprs s)(0 := rl_source final, 1 := gprs s 1 + of_nat (len + odd_end + 2 * m))"
    using e g d1 by (simp add: add.assoc)
  ultimately show ?thesis unfolding u by simp
qed

lemma round2_int: "round2 (int len) = len + len mod 2"
  unfolding round2_def by simp presburger

lemma aligned_even: "even ((r :: u32) AND 0xFFFFFFFC)" "even (((r :: u32) AND 0xFFFFFFFC) + 4)"
  by (simp_all add: even_and_iff)

definition unFilter_count :: "int \<Rightarrow> nat \<Rightarrow> nat" where
  "unFilter_count outwidth len = (if outwidth = 1 then len else len + len mod 2)"

lemma unFilter_result:
  fixes s :: gba
  assumes w: "(inwidth, outwidth) \<in> {(1, 1), (1, 2), (2, 2)}"
  defines "source \<equiv> gprs s 0 AND 0xFFFFFFFC"
  defines "K \<equiv> unFilter_count outwidth (header_length (load32 s source))"
  shows "\<exists>s'. unFilter s inwidth outwidth = Some s'
           \<and> gprs s' = (gprs s)(0 := source + 4 + of_nat K, 1 := gprs s 1 + of_nat K)
           \<and> (\<exists>evs. stores s' = stores s @ evs \<and> bytes_stored evs = K \<and> within (gprs s 1) K evs)"
proof -
  define len where "len = header_length (load32 s source)"
  obtain st' where l: "unFilter_loop inwidth outwidth (s, source + 4, gprs s 1, int len, 0, 0) = Some st'"
    using unFilter_loop_terminates [OF w] by blast
  obtain s1 source1 dest1 remaining1 halfword1 old1
    where st': "st' = (s1, source1, dest1, remaining1, halfword1, old1)" by (cases st')
  have u: "unFilter s inwidth outwidth = Some (s1\<lparr>gprs := (gprs s1)(0 := source1, 1 := dest1)\<rparr>)"
    unfolding unFilter_def Let_def source_def [symmetric] uint_header_length' len_def [symmetric]
    using l st' by simp
  have r: "stored (s, gprs s 1) K (s1, dest1) \<and> source1 = source + 4 + of_nat K"
  proof -
    from w consider "inwidth = 1 \<and> outwidth = 1" | "inwidth = 1 \<and> outwidth = 2" | "inwidth = 2 \<and> outwidth = 2"
      by auto
    then show ?thesis
    proof cases
      case 1
      with l st' unFilter_loop_11 [of s "source + 4" "gprs s 1" "int len" 0 0 s1 source1 dest1 remaining1 halfword1 old1]
      show ?thesis by (simp add: K_def unFilter_count_def len_def)
    next
      case 2
      have "\<not> odd (source + 4)" unfolding source_def using aligned_even(2) [of "gprs s 0"] by simp
      with 2 l st' unFilter_loop_12 [of s "source + 4" "gprs s 1" "int len" 0 0 s1 source1 dest1 remaining1 halfword1 old1]
      show ?thesis by (simp add: K_def unFilter_count_def len_def round2_int)
    next
      case 3
      with l st' unFilter_loop_22 [of s "source + 4" "gprs s 1" "int len" 0 0 s1 source1 dest1 remaining1 halfword1 old1]
      show ?thesis by (simp add: K_def unFilter_count_def len_def round2_int)
    qed
  qed
  then obtain evs where "dest1 = gprs s 1 + of_nat K" "gprs s1 = gprs s"
     "stores s1 = stores s @ evs" "bytes_stored evs = K" "within (gprs s 1) K evs"
    by (auto simp: stored.simps)
  with r show ?thesis unfolding u by auto
qed

definition huff_entry :: "gba \<Rightarrow> u32 \<times> huff_vars" where
  "huff_entry s =
     (let source = gprs s 0 AND 0xFFFFFFFC;
          header = load32 s source;
          remaining = drop_bit 8 header AND 0xFFFFFFFC;
          treesize = push_bit 1 (loadU8 s (source + 4)) + 1;
          treeBase = source + 5
      in (source + (5 + treesize), s, gprs s 1, uint remaining, 0, treeBase,
          ucast (load8 s treeBase), 0))"

definition huff_bits_of :: "gba \<Rightarrow> nat" where
  "huff_bits_of s = unat (load32 s (gprs s 0 AND 0xFFFFFFFC) AND 0xF)"

definition declared_length :: "gba \<Rightarrow> nat" where
  "declared_length s = header_length (load32 s (gprs s 0 AND 0xFFFFFFFC))"

lemma huff_word_source: "fst (huff_word bits treeBase st) = fst st + 4"
  by (cases st) (simp add: Let_def del: huff_bits.simps)

lemma huff_loop_words:
  assumes a: "huff_loop bits treeBase st = Some st'"
  shows "\<exists>k. st' = (huff_word bits treeBase ^^ k) st \<and> fst st' = fst st + 4 * of_nat k
           \<and> (\<forall>j<k. 0 < huff_remaining ((huff_word bits treeBase ^^ j) st))"
proof (rule huff_loop.raw_induct
    [where P = "\<lambda>bits treeBase st st'.
        \<exists>k. st' = (huff_word bits treeBase ^^ k) st \<and> fst st' = fst st + 4 * of_nat k
           \<and> (\<forall>j<k. 0 < huff_remaining ((huff_word bits treeBase ^^ j) st))",
     OF _ a])
  fix f bits treeBase st st'
  assume IH: "\<And>bits treeBase st st'. f bits treeBase st = Some st' \<Longrightarrow>
        \<exists>k. st' = (huff_word bits treeBase ^^ k) st \<and> fst st' = fst st + 4 * of_nat k
           \<and> (\<forall>j<k. 0 < huff_remaining ((huff_word bits treeBase ^^ j) st))"
    and eq: "(if 0 < huff_remaining st then f bits treeBase (huff_word bits treeBase st) else Some st)
               = Some st'"
  show "\<exists>k. st' = (huff_word bits treeBase ^^ k) st \<and> fst st' = fst st + 4 * of_nat k
           \<and> (\<forall>j<k. 0 < huff_remaining ((huff_word bits treeBase ^^ j) st))"
  proof (cases "0 < huff_remaining st")
    case True
    with eq have "f bits treeBase (huff_word bits treeBase st) = Some st'" by simp
    from IH [OF this] obtain k where
      k: "st' = (huff_word bits treeBase ^^ k) (huff_word bits treeBase st)"
         "fst st' = fst (huff_word bits treeBase st) + 4 * of_nat k"
         "\<forall>j<k. 0 < huff_remaining ((huff_word bits treeBase ^^ j) (huff_word bits treeBase st))"
      by blast
    have 1: "st' = (huff_word bits treeBase ^^ Suc k) st"
      unfolding k(1) by (simp only: funpow_Suc_right comp_def)
    have 2: "fst st' = fst st + 4 * of_nat (Suc k)"
      unfolding k(2) huff_word_source by (simp add: algebra_simps)
    have 3: "\<forall>j<Suc k. 0 < huff_remaining ((huff_word bits treeBase ^^ j) st)"
    proof (intro allI impI)
      fix j assume j: "j < Suc k"
      show "0 < huff_remaining ((huff_word bits treeBase ^^ j) st)"
      proof (cases j)
        case 0
        with True show ?thesis by simp
      next
        case (Suc i)
        with j have "i < k" by simp
        with k(3) have "0 < huff_remaining ((huff_word bits treeBase ^^ i) (huff_word bits treeBase st))"
          by blast
        then show ?thesis unfolding Suc by (simp only: funpow_Suc_right comp_def)
      qed
    qed
    from 1 2 3 show ?thesis by blast
  next
    case False
    with eq have "st' = st" by simp
    then have "st' = (huff_word bits treeBase ^^ 0) st \<and> fst st' = fst st + 4 * of_nat 0
           \<and> (\<forall>j<0. 0 < huff_remaining ((huff_word bits treeBase ^^ j) st))"
      by simp
    then show ?thesis by (rule exI)
  qed
qed

text \<open>The word being assembled and the count of bytes still to come, of the loop variables.\<close>

fun huff_block :: "huff_vars \<Rightarrow> u32" where
  "huff_block (s, dest, remaining, block, nPointer, node, bitsSeen) = block"

fun huff_left :: "huff_vars \<Rightarrow> int" where
  "huff_left (s, dest, remaining, block, nPointer, node, bitsSeen) = remaining"

lemma huff_symbol_block:
  "0 < huff_left st \<Longrightarrow>
   0 < huff_left (huff_symbol bits treeBase readBits st) \<or> huff_block (huff_symbol bits treeBase readBits st) = 0"
  by (cases st) (simp add: Let_def)

lemma huff_bit_block:
  "0 < huff_left st \<Longrightarrow>
   0 < huff_left (huff_bit bits treeBase bitstream st) \<or> huff_block (huff_bit bits treeBase bitstream st) = 0"
proof -
  assume p: "0 < huff_left st"
  obtain s dest remaining block nPointer node bitsSeen
    where st: "st = (s, dest, remaining, block, nPointer, node, bitsSeen)" by (cases st)
  from p have r: "0 < remaining" unfolding st by simp
  show ?thesis
    unfolding st using r huff_symbol_block [of "(s, dest, remaining, block, nPointer, node, bitsSeen)"]
    by (simp add: Let_def del: huff_symbol.simps)
qed

lemma huff_bits_block:
  "0 < huff_left st \<or> huff_block st = 0 \<Longrightarrow>
   0 < huff_left (huff_bits bits treeBase n bitstream st) \<or> huff_block (huff_bits bits treeBase n bitstream st) = 0"
proof (induction n arbitrary: bitstream st)
  case 0
  then show ?case by simp
next
  case (Suc n)
  obtain s dest remaining block nPointer node bitsSeen
    where st: "st = (s, dest, remaining, block, nPointer, node, bitsSeen)" by (cases st)
  show ?case
  proof (cases "0 < remaining")
    case True
    then have "0 < huff_left st" unfolding st by simp
    from huff_bit_block [OF this, of bits treeBase bitstream]
    have "0 < huff_left (huff_bit bits treeBase bitstream st)
            \<or> huff_block (huff_bit bits treeBase bitstream st) = 0" .
    from Suc.IH [OF this, of "push_bit 1 bitstream"] True show ?thesis
      unfolding st by (simp del: huff_bit.simps)
  next
    case False
    with Suc.prems show ?thesis unfolding st by simp
  qed
qed

lemma huff_word_block:
  "0 < huff_left (snd st) \<or> huff_block (snd st) = 0 \<Longrightarrow>
   0 < huff_left (snd (huff_word bits treeBase st)) \<or> huff_block (snd (huff_word bits treeBase st)) = 0"
  by (cases st) (simp add: Let_def huff_bits_block del: huff_bits.simps)

lemma huff_loop_block:
  assumes a: "huff_loop bits treeBase st = Some st'"
    and b: "0 < huff_left (snd st) \<or> huff_block (snd st) = 0"
  shows "huff_block (snd st') = 0"
proof -
  have "(0 < huff_left (snd st) \<or> huff_block (snd st) = 0) \<longrightarrow> huff_block (snd st') = 0"
  proof (rule huff_loop.raw_induct
    [where P = "\<lambda>bits treeBase st st'.
        (0 < huff_left (snd st) \<or> huff_block (snd st) = 0) \<longrightarrow> huff_block (snd st') = 0",
     OF _ a])
    fix f bits treeBase st st'
    assume IH: "\<And>bits treeBase st st'. f bits treeBase st = Some st' \<Longrightarrow>
        (0 < huff_left (snd st) \<or> huff_block (snd st) = 0) \<longrightarrow> huff_block (snd st') = 0"
      and eq: "(if 0 < huff_remaining st then f bits treeBase (huff_word bits treeBase st) else Some st)
               = Some st'"
    have hr: "huff_remaining st = huff_left (snd st)" by (cases st) auto
    show "(0 < huff_left (snd st) \<or> huff_block (snd st) = 0) \<longrightarrow> huff_block (snd st') = 0"
    proof
      assume i: "0 < huff_left (snd st) \<or> huff_block (snd st) = 0"
      show "huff_block (snd st') = 0"
      proof (cases "0 < huff_remaining st")
        case True
        with eq have "f bits treeBase (huff_word bits treeBase st) = Some st'" by simp
        from IH [OF this] huff_word_block [OF i, of bits treeBase] show ?thesis by blast
      next
        case False
        with eq have "st' = st" by simp
        with False i hr show ?thesis by simp
      qed
    qed
  qed
  with b show ?thesis by blast
qed

lemma unHuffman_result:
  fixes s :: gba
  assumes bits: "huff_bits_of s \<noteq> 0" "32 mod huff_bits_of s = 0"
    and ret: "unHuffman s = Some (Inr s')"
  defines "len \<equiv> declared_length s"
  shows "\<exists>final evs block.
            huff_loop (huff_bits_of s) ((gprs s 0 AND 0xFFFFFFFC) + 5) (huff_entry s) = Some final
          \<and> gprs s' = (gprs s)(0 := fst final, 1 := gprs s 1 + of_nat (4 * (len div 4)))
          \<and> stores s' = stores s @ evs
                @ (if len mod 4 = 0 then [] else [Store32 (gprs s 1 + of_nat (4 * (len div 4))) block])
          \<and> bytes_stored evs = 4 * (len div 4)
          \<and> within (gprs s 1) (4 * (len div 4)) evs
          \<and> block = 0"
proof -
  define source where "source = gprs s 0 AND 0xFFFFFFFC"
  define header where "header = load32 s source"
  define padding :: u32 where "padding = (4 - drop_bit 8 header) AND 3"
  have up: "unat padding = pad4 len"
    unfolding padding_def len_def declared_length_def header_length_def header_def source_def pad4_def
    by (rule pad_value)
  have p0: "padding = 0 \<longleftrightarrow> len mod 4 = 0"
  proof -
    have "padding = 0 \<longleftrightarrow> unat padding = 0" by (simp add: unat_eq_0)
    also have "\<dots> \<longleftrightarrow> len mod 4 = 0" unfolding up pad4_def by presburger
    finally show ?thesis .
  qed
  have ur: "uint (drop_bit 8 header AND 0xFFFFFFFC) = int (4 * (len div 4))"
    using clear2 [of "drop_bit 8 header"]
    unfolding len_def declared_length_def header_length_def header_def source_def
    by (simp only: uint_nat) 
  let ?loop = "huff_loop (huff_bits_of s) (source + 5) (huff_entry s)"
  have unf: "unHuffman s =
       (case ?loop of None \<Rightarrow> None
        | Some (source, s, dest, remaining, block, nPointer, node, bitsSeen) \<Rightarrow>
            Some (Inr ((if padding \<noteq> 0 then store32 s dest block else s)
                        \<lparr>gprs := (gprs (if padding \<noteq> 0 then store32 s dest block else s))
                                   (0 := source, 1 := dest)\<rparr>)))"
    using bits
    unfolding unHuffman_def huff_entry_def huff_bits_of_def Let_def source_def header_def padding_def
    by (simp split: option.split)
  from ret unf obtain final where l: "?loop = Some final"
    by (cases ?loop) simp_all
  obtain source1 st1 where f0: "final = (source1, st1)" by (cases final)
  obtain s1 dest1 remaining1 block1 nPointer1 node1 bitsSeen1
    where "st1 = (s1, dest1, remaining1, block1, nPointer1, node1, bitsSeen1)"
    by (cases st1)
  with f0 have f: "final = (source1, s1, dest1, remaining1, block1, nPointer1, node1, bitsSeen1)"
    by simp
  have "huff_entry s = (source + (5 + (push_bit 1 (loadU8 s (source + 4)) + 1)), s, gprs s 1,
          int (4 * (len div 4)), 0, source + 5, ucast (load8 s (source + 5)), 0)"
    unfolding huff_entry_def Let_def source_def [symmetric] header_def [symmetric] ur ..
  with l f have "huff_loop (huff_bits_of s) (source + 5)
       (source + (5 + (push_bit 1 (loadU8 s (source + 4)) + 1)), s, gprs s 1,
          int (4 * (len div 4)), 0, source + 5, ucast (load8 s (source + 5)), 0)
      = Some (source1, s1, dest1, remaining1, block1, nPointer1, node1, bitsSeen1)" by simp
  note lp = this
  have "huff_block (snd (source1, s1, dest1, remaining1, block1, nPointer1, node1, bitsSeen1)) = 0"
    by (rule huff_loop_block [OF lp]) simp
  then have b0: "block1 = 0" by simp
  from huff_loop_result [OF lp]
  have "stored (s, gprs s 1) (nat (int (4 * (len div 4)))) (s1, dest1)" by simp
  then have "stored (s, gprs s 1) (4 * (len div 4)) (s1, dest1)" by (simp only: nat_int)
  then obtain evs where e: "dest1 = gprs s 1 + of_nat (4 * (len div 4))" "gprs s1 = gprs s"
     "stores s1 = stores s @ evs" "bytes_stored evs = 4 * (len div 4)"
     "within (gprs s 1) (4 * (len div 4)) evs"
    by (auto simp: stored.simps)
  from ret unf l f
  have s': "s' = (if padding \<noteq> 0 then store32 s1 dest1 block1 else s1)
                   \<lparr>gprs := (gprs (if padding \<noteq> 0 then store32 s1 dest1 block1 else s1))
                              (0 := source1, 1 := dest1)\<rparr>"
    by simp
  show ?thesis
    unfolding source_def [symmetric]
    using l e p0 f b0
    by (intro exI [of _ final] exI [of _ evs] exI [of _ block1]) (simp add: s')
qed

section \<open>The bytes written and the registers left by the decoders\<close>

lemma pad4_cases:
  "(n mod 4 = 0 \<and> pad4 n = 0) \<or> (n mod 4 = 1 \<and> pad4 n = 3)
   \<or> (n mod 4 = 2 \<and> pad4 n = 2) \<or> (n mod 4 = 3 \<and> pad4 n = 1)"
proof -
  have "n mod 4 < 4" by simp
  then have "n mod 4 = 0 \<or> n mod 4 = 1 \<or> n mod 4 = 2 \<or> n mod 4 = 3" by linarith
  then show ?thesis unfolding pad4_def by auto
qed

lemma pad4_round: "pad4 n \<le> 3 \<and> (n + pad4 n) mod 4 = 0"
proof -
  have "(n + pad4 n) mod 4 = (n mod 4 + pad4 n) mod 4" by (simp add: mod_add_left_eq)
  then show ?thesis using pad4_cases [of n] by auto
qed

lemma pad4_even: "even n \<Longrightarrow> 2 * ((pad4 n + 1) div 2) = pad4 n"
proof -
  assume e: "even n"
  have "n mod 2 = (n mod 4) mod 2" by (simp add: mod_mod_cancel)
  with e have "even (n mod 4)" by (simp add: even_iff_mod_2_eq_zero)
  then show ?thesis using pad4_cases [of n] by auto
qed

lemma pad4_words: "4 * (n div 4) + (if n mod 4 = 0 then 0 else 4) = n + pad4 n"
proof -
  define q where "q = n div 4"
  define r where "r = n mod 4"
  have n: "n = 4 * q + r" by (simp add: q_def r_def)
  have "(r = 0 \<and> pad4 n = 0) \<or> (r = 1 \<and> pad4 n = 3) \<or> (r = 2 \<and> pad4 n = 2) \<or> (r = 3 \<and> pad4 n = 1)"
    unfolding r_def by (rule pad4_cases)
  then have "4 * q + (if r = 0 then 0 else 4) = 4 * q + r + pad4 n" by auto
  then show ?thesis unfolding q_def r_def by simp
qed

lemma written_append: "stores s' = stores s @ evs \<Longrightarrow> written s s' = bytes_stored evs"
  by (simp add: written_def)

lemma lz:
  "\<exists>evs. stores (unLz77 h0 s w) = stores s @ evs
      \<and> bytes_stored evs + pending w (gprs s 1 + of_nat (header_length (load32 s (gprs s 0))))
           = pending w (gprs s 1) + header_length (load32 s (gprs s 0))"
  using unLz77_result [of h0 s w] by blast

lemma lz1: "width \<noteq> 2 \<Longrightarrow> written s (unLz77 h0 s width) = header_length (load32 s (gprs s 0))"
proof -
  assume w: "width \<noteq> 2"
  from lz [of h0 s width] obtain evs where
    e: "stores (unLz77 h0 s width) = stores s @ evs"
       "bytes_stored evs + pending width (gprs s 1 + of_nat (header_length (load32 s (gprs s 0))))
           = pending width (gprs s 1) + header_length (load32 s (gprs s 0))"
    by blast
  from e(2) w have "bytes_stored evs = header_length (load32 s (gprs s 0))"
    by (simp add: pending_def)
  with written_append [OF e(1)] show ?thesis by simp
qed

lemma lz2:
  assumes "even (gprs s 1)" "even (header_length (load32 s (gprs s 0)))"
  shows "written s (unLz77 h0 s 2) = header_length (load32 s (gprs s 0))"
proof -
  from lz [of h0 s 2] obtain evs where
    e: "stores (unLz77 h0 s 2) = stores s @ evs"
       "bytes_stored evs + pending 2 (gprs s 1 + of_nat (header_length (load32 s (gprs s 0))))
           = pending 2 (gprs s 1) + header_length (load32 s (gprs s 0))"
    by blast
  have "pending 2 (gprs s 1) = 0"
    "pending 2 (gprs s 1 + of_nat (header_length (load32 s (gprs s 0)))) = 0"
    using assms by (simp_all add: pending_odd)
  with e(2) have "bytes_stored evs = header_length (load32 s (gprs s 0))" by simp
  with written_append [OF e(1)] show ?thesis by simp
qed

lemma dl: "header_length (load32 s (gprs s 0 AND 0xFFFFFFFC)) = declared_length s"
  by (simp add: declared_length_def)

lemma rl1:
  assumes "width \<noteq> 2"
  shows "(\<exists>evs pads. stores (unRl s width) = stores s @ evs @ pads
             \<and> bytes_stored evs = declared_length s
             \<and> bytes_stored pads = pad4 (declared_length s)
             \<and> (\<forall>ev\<in>set pads. \<exists>a. ev = Store8 a 0))
         \<and> written s (unRl s width) = declared_length s + pad4 (declared_length s)"
proof -
  from unRl_bytes [OF assms, of s, unfolded dl] obtain evs pads where
    e: "stores (unRl s width) = stores s @ evs @ pads" "bytes_stored evs = declared_length s"
       "bytes_stored pads = pad4 (declared_length s)" "\<forall>ev\<in>set pads. \<exists>a. ev = Store8 a 0"
    by blast
  from written_append [OF e(1)] e(2,3)
  have "written s (unRl s width) = declared_length s + pad4 (declared_length s)" by simp
  with e show ?thesis by blast
qed

lemma rl2:
  assumes ev: "even (gprs s 1)" "even (declared_length s)"
  shows "(\<exists>evs pads. stores (unRl s 2) = stores s @ evs @ pads
             \<and> bytes_stored evs = declared_length s
             \<and> bytes_stored pads = pad4 (declared_length s)
             \<and> (\<forall>ev\<in>set pads. \<exists>a. ev = Store16 a 0))
         \<and> written s (unRl s 2) = declared_length s + pad4 (declared_length s)"
proof -
  have p0: "pending 2 (gprs s 1) = 0" "pending 2 (gprs s 1 + of_nat (declared_length s)) = 0"
    using ev by (simp_all add: pending_odd)
  have m: "2 * ((nat (int (pad4 (declared_length s)) - int 0) + 1) div 2) = pad4 (declared_length s)"
    using pad4_even [OF ev(2)] by simp
  from unRl_halfwords [of s, unfolded dl p0] obtain evs pads where
    e: "stores (unRl s 2) = stores s @ evs @ pads" "bytes_stored evs + 0 = 0 + declared_length s"
       "bytes_stored pads = 2 * ((nat (int (pad4 (declared_length s)) - int 0) + 1) div 2)"
       "\<forall>ev\<in>set pads. \<exists>a. ev = Store16 a 0"
    by blast
  from e(2) have b: "bytes_stored evs = declared_length s" by simp
  from e(3) m have p: "bytes_stored pads = pad4 (declared_length s)" by simp
  from written_append [OF e(1)] b p
  have "written s (unRl s 2) = declared_length s + pad4 (declared_length s)" by simp
  with e(1,4) b p show ?thesis by blast
qed

lemma uf_bytes:
  assumes "(inwidth, outwidth) \<in> {(1, 1), (1, 2), (2, 2)}"
  shows "\<exists>s'. unFilter s inwidth outwidth = Some s'
            \<and> written s s' = (if outwidth = 1 then declared_length s
                               else declared_length s + declared_length s mod 2)"
proof -
  from unFilter_result [OF assms, of s, unfolded dl] obtain s' evs where
    e: "unFilter s inwidth outwidth = Some s'" "stores s' = stores s @ evs"
       "bytes_stored evs = unFilter_count outwidth (declared_length s)"
    by blast
  from written_append [OF e(2)] e(3)
  have "written s s' = (if outwidth = 1 then declared_length s
                               else declared_length s + declared_length s mod 2)"
    by (simp add: unFilter_count_def)
  with e(1) show ?thesis by blast
qed

lemma huff_bytes:
  assumes "huff_bits_of s \<noteq> 0" "32 mod huff_bits_of s = 0" "unHuffman s = Some (Inr s')"
  shows "written s s' = declared_length s + pad4 (declared_length s)"
proof -
  from unHuffman_result [OF assms] obtain evs block where
    e: "stores s' = stores s @ evs
          @ (if declared_length s mod 4 = 0 then []
             else [Store32 (gprs s 1 + of_nat (4 * (declared_length s div 4))) block])"
       "bytes_stored evs = 4 * (declared_length s div 4)" by blast
  have "written s s' = 4 * (declared_length s div 4) + (if declared_length s mod 4 = 0 then 0 else 4)"
    using written_append [OF e(1)] e(2) by (cases "declared_length s mod 4 = 0") simp_all
  with pad4_words [of "declared_length s"] show ?thesis by simp
qed

lemma huff_unaligned_bytes:
  assumes "huff_bits_of s \<noteq> 0" "32 mod huff_bits_of s \<noteq> 0"
  shows "\<exists>s'. unHuffman s = Some (Inr s') \<and> written s s' = 0"
proof -
  from unHuffman_unaligned [of s] assms obtain s' where
    "unHuffman s = Some (Inr s')" "stores s' = stores s"
    unfolding huff_bits_of_def by blast
  then show ?thesis by (auto simp: written_def)
qed

definition uf_example :: gba where
  "uf_example = gba0\<lparr>gprs := (\<lambda>r. 0)(0 := 0x02000000, 1 := 0x03000000),
      mem := bytes_at 0x02000000 [0x81, 0x03, 0, 0, 0x02, 0x41, 0x42, 0x43]\<rparr>"

definition huff_example :: gba where
  "huff_example = gba0\<lparr>gprs := (\<lambda>r. 0)(0 := 0x02000000, 1 := 0x03000000),
      mem := bytes_at 0x02000000 [0x28, 0x05, 0, 0, 0x01, 0xC0, 0x41, 0x42, 0x50, 0, 0, 0]\<rparr>"

text \<open>
  C1, as the claim states it, fails: it wants the bytes stored to be as many as the
  header declares, for UnFilter too.  The 16-bit UnFilter stores whole halfwords: on a
  header that declares 3 bytes it issues two 16-bit stores, 4 bytes.
\<close>

theorem unFilter_16_bytes_counterexample:
  "declared_length uf_example = 3
   \<and> map_option stores (unFilter uf_example 2 2)
       = Some [Store16 0x03000000 0x4102, Store16 0x03000002 0x8444]
   \<and> written uf_example (the (unFilter uf_example 2 2)) = 4"
  by code_simp

text \<open>
  C1, amended.  With \<open>n\<close> the length that the header declares:
  LZ77 with byte stores (a width other than 2) stores exactly \<open>n\<close> bytes, and so does
  LZ77 with halfword stores when the destination and \<open>n\<close> are even;
  RLE with byte stores stores \<open>n\<close> bytes and then \<open>(4 - n) AND 3\<close> zero bytes, and so
  does RLE with halfword stores (zero halfwords) when the destination and \<open>n\<close> are even;
  UnFilter returns and has stored \<open>n\<close> bytes when the output width is 1, and \<open>n\<close>
  rounded up to an even number when it is 2;
  Huffman with a symbol width that divides 32, when it returns, has stored \<open>n\<close> rounded
  up to a multiple of 4, and with a width from 1 to 15 that does not divide 32 it
  returns having stored nothing.
  (The padding \<open>pad4 n\<close> is at most 3 and rounds \<open>n\<close> up to a multiple of 4.)
\<close>

theorem decoders_bytes_written:
  "(width \<noteq> 2 \<longrightarrow> written s (unLz77 h0 s width) = header_length (load32 s (gprs s 0)))
   \<and> (even (gprs s 1) \<and> even (header_length (load32 s (gprs s 0))) \<longrightarrow>
         written s (unLz77 h0 s 2) = header_length (load32 s (gprs s 0)))
   \<and> (width \<noteq> 2 \<longrightarrow>
         (\<exists>evs pads. stores (unRl s width) = stores s @ evs @ pads
             \<and> bytes_stored evs = declared_length s
             \<and> bytes_stored pads = pad4 (declared_length s)
             \<and> (\<forall>ev\<in>set pads. \<exists>a. ev = Store8 a 0))
         \<and> written s (unRl s width) = declared_length s + pad4 (declared_length s))
   \<and> (even (gprs s 1) \<and> even (declared_length s) \<longrightarrow>
         (\<exists>evs pads. stores (unRl s 2) = stores s @ evs @ pads
             \<and> bytes_stored evs = declared_length s
             \<and> bytes_stored pads = pad4 (declared_length s)
             \<and> (\<forall>ev\<in>set pads. \<exists>a. ev = Store16 a 0))
         \<and> written s (unRl s 2) = declared_length s + pad4 (declared_length s))
   \<and> (\<forall>inwidth outwidth. (inwidth, outwidth) \<in> {(1, 1), (1, 2), (2, 2)} \<longrightarrow>
         (\<exists>s'. unFilter s inwidth outwidth = Some s'
            \<and> written s s' = (if outwidth = 1 then declared_length s
                               else declared_length s + declared_length s mod 2)))
   \<and> (\<forall>s'. huff_bits_of s \<noteq> 0 \<and> 32 mod huff_bits_of s = 0 \<and> unHuffman s = Some (Inr s') \<longrightarrow>
         written s s' = declared_length s + pad4 (declared_length s))
   \<and> (huff_bits_of s \<noteq> 0 \<and> 32 mod huff_bits_of s \<noteq> 0 \<longrightarrow>
         (\<exists>s'. unHuffman s = Some (Inr s') \<and> written s s' = 0))
   \<and> (\<forall>n. pad4 n \<le> 3 \<and> (n + pad4 n) mod 4 = 0)"
proof (intro conjI allI impI)
  show "written s (unLz77 h0 s width) = header_length (load32 s (gprs s 0))" if "width \<noteq> 2"
    using that by (rule lz1)
  show "written s (unLz77 h0 s 2) = header_length (load32 s (gprs s 0))"
    if "even (gprs s 1) \<and> even (header_length (load32 s (gprs s 0)))"
    using that by (intro lz2) simp_all
  show "\<exists>evs pads. stores (unRl s width) = stores s @ evs @ pads
             \<and> bytes_stored evs = declared_length s
             \<and> bytes_stored pads = pad4 (declared_length s)
             \<and> (\<forall>ev\<in>set pads. \<exists>a. ev = Store8 a 0)" if "width \<noteq> 2"
    using rl1 [OF that, of s] by (rule conjunct1)
  show "written s (unRl s width) = declared_length s + pad4 (declared_length s)" if "width \<noteq> 2"
    using rl1 [OF that, of s] by (rule conjunct2)
  show "\<exists>evs pads. stores (unRl s 2) = stores s @ evs @ pads
             \<and> bytes_stored evs = declared_length s
             \<and> bytes_stored pads = pad4 (declared_length s)
             \<and> (\<forall>ev\<in>set pads. \<exists>a. ev = Store16 a 0)"
    if e: "even (gprs s 1) \<and> even (declared_length s)"
    using rl2 [OF conjunct1 [OF e] conjunct2 [OF e]] by (rule conjunct1)
  show "written s (unRl s 2) = declared_length s + pad4 (declared_length s)"
    if e: "even (gprs s 1) \<and> even (declared_length s)"
    using rl2 [OF conjunct1 [OF e] conjunct2 [OF e]] by (rule conjunct2)
  show "\<exists>s'. unFilter s inwidth outwidth = Some s'
            \<and> written s s' = (if outwidth = 1 then declared_length s
                               else declared_length s + declared_length s mod 2)"
    if "(inwidth, outwidth) \<in> {(1, 1), (1, 2), (2, 2)}" for inwidth outwidth
    using that by (rule uf_bytes)
  show "written s s' = declared_length s + pad4 (declared_length s)"
    if h: "huff_bits_of s \<noteq> 0 \<and> 32 mod huff_bits_of s = 0 \<and> unHuffman s = Some (Inr s')" for s'
    using h by (intro huff_bytes) simp_all
  show "\<exists>s'. unHuffman s = Some (Inr s') \<and> written s s' = 0"
    if h: "huff_bits_of s \<noteq> 0 \<and> 32 mod huff_bits_of s \<noteq> 0"
    using h by (intro huff_unaligned_bytes) simp_all
  show "pad4 n \<le> 3" for n using pad4_round [of n] by (rule conjunct1)
  show "(n + pad4 n) mod 4 = 0" for n using pad4_round [of n] by (rule conjunct2)
qed

definition reg :: "nat \<Rightarrow> gba \<Rightarrow> u32" where
  "reg r s = gprs s r"

lemma min_Suc_pos: "0 < (r::int) \<Longrightarrow> min (Suc n) (nat r) = Suc (min n (nat (r - 1)))"
proof -
  assume "0 < r"
  then have "nat r = Suc (nat (r - 1))" by linarith
  then show ?thesis by (simp only: min_Suc_Suc)
qed

text \<open>
  The input that a decoder consumes.  \<open>consecutive a xs\<close>: the addresses \<open>xs\<close> are
  \<open>a\<close>, \<open>a + 1\<close>, and so on, each once and in order.
\<close>

definition consecutive :: "u32 \<Rightarrow> u32 list \<Rightarrow> bool" where
  "consecutive a xs = (xs = map (\<lambda>i. a + of_nat i) [0..<length xs])"

lemma upt_Suc_shift: "[0..<Suc k] = 0 # map Suc [0..<k]"
  by (simp only: upt_conv_Cons [of 0 "Suc k"] map_Suc_upt)

lemma consecutive_Nil [simp]: "consecutive a []"
  by (simp add: consecutive_def)

lemma consecutive_append:
  assumes "consecutive a xs" "consecutive (a + of_nat (length xs)) ys"
  shows "consecutive a (xs @ ys)"
proof -
  let ?n = "length xs" and ?m = "length ys"
  have "[0..<?n + ?m] = [0..<?n] @ [?n..<?n + ?m]"
    by (rule upt_add_eq_append) simp
  also have "[?n..<?n + ?m] = map (\<lambda>i. i + ?n) [0..<?m]"
    by (simp only: map_add_upt add.commute [of ?n ?m])
  finally have "map (\<lambda>i. a + of_nat i) [0..<?n + ?m]
      = map (\<lambda>i. a + of_nat i) [0..<?n] @ map (\<lambda>i. a + of_nat ?n + of_nat i) [0..<?m]"
    by (simp add: comp_def add.assoc add.commute)
  moreover from assms(1) have "xs = map (\<lambda>i. a + of_nat i) [0..<?n]"
    unfolding consecutive_def .
  moreover from assms(2) have "ys = map (\<lambda>i. a + of_nat ?n + of_nat i) [0..<?m]"
    unfolding consecutive_def .
  ultimately have "xs @ ys = map (\<lambda>i. a + of_nat i) [0..<?n + ?m]" by simp
  then show ?thesis unfolding consecutive_def by simp
qed

text \<open>
  The addresses at which one iteration of the main loop of \<^verbatim>\<open>_unLz77\<close> loads from the
  compressed stream: the arguments of its \<^verbatim>\<open>loadU8\<close> calls on \<^verbatim>\<open>source\<close>, in order.
  (The copy loop of a compressed chunk loads through \<^verbatim>\<open>disp\<close>, from the output.)  And
  those of all the iterations of a run.
\<close>

fun lz77_loads :: "lz77_vars \<Rightarrow> u32 list" where
  "lz77_loads (s, source, dest, remaining, blockheader, blocksRemaining, halfword) =
     (if blocksRemaining \<noteq> 0 then
        (if blockheader AND 0x80 \<noteq> 0 then [source, source + 1] else [source])
      else [source])"

function lz77_consumed :: "int \<Rightarrow> lz77_vars \<Rightarrow> u32 list" where
  "lz77_consumed width st =
     (if lz77_remaining st > 0 then lz77_loads st @ lz77_consumed width (lz77_step width st) else [])"
  by pat_completeness auto
termination
  by (relation "measure (\<lambda>(width, st). lz77_measure st)") (auto intro: lz77_step_decreases)

declare lz77_consumed.simps [simp del]

lemma consecutive_one: "consecutive a [a]"
  by (simp add: consecutive_def)

lemma consecutive_two: "consecutive a [a, a + 1]"
proof -
  have "[0..<2] = [0, Suc 0]" by (simp add: upt_rec)
  then show ?thesis by (simp add: consecutive_def numeral_2_eq_2)
qed

lemma lz77_step_source:
  "consecutive (lz77_source st) (lz77_loads st)
   \<and> lz77_source (lz77_step width st) = lz77_source st + of_nat (length (lz77_loads st))"
proof -
  obtain s source dest remaining blockheader blocksRemaining halfword
    where st: "st = (s, source, dest, remaining, blockheader, blocksRemaining, halfword)"
    by (cases st)
  show ?thesis
  proof (cases "blocksRemaining = 0")
    case True
    then show ?thesis unfolding st by (simp add: consecutive_one)
  next
    case br: False
    show ?thesis
    proof (cases "blockheader AND 0x80 \<noteq> 0")
      case True
      define block where "block = loadU8 s source OR push_bit 8 (loadU8 s (source + 1))"
      obtain s' disp' dest' remaining' halfword'
        where c: "lz77_copy width (lz77_bytes block)
                    (s, dest - lz77_disp block - 1, dest, remaining, halfword)
                  = (s', disp', dest', remaining', halfword')"
        by (cases "lz77_copy width (lz77_bytes block)
                    (s, dest - lz77_disp block - 1, dest, remaining, halfword)")
      have "lz77_step width st
              = (s', source + 2, dest', remaining', push_bit 1 blockheader, blocksRemaining - 1, halfword')"
        unfolding st using br True c
        by (simp add: Let_def block_def [symmetric] del: lz77_copy.simps)
      then have "lz77_source (lz77_step width st) = source + 2" by simp
      moreover have "lz77_loads st = [source, source + 1]" unfolding st using br True by simp
      ultimately show ?thesis unfolding st by (simp add: consecutive_two)
    next
      case False
      obtain s1 h1 where e: "emit_byte width s dest halfword (loadU8 s source) = (s1, h1)"
        by (cases "emit_byte width s dest halfword (loadU8 s source)")
      from br False e show ?thesis unfolding st by (simp add: Let_def consecutive_one)
    qed
  qed
qed

lemma lz77_consumed_run:
  "consecutive (lz77_source st) (lz77_consumed width st)
   \<and> lz77_source (lz77_loop width st) = lz77_source st + of_nat (length (lz77_consumed width st))"
proof (induction width st rule: lz77_loop.induct)
  case (1 width st)
  show ?case
  proof (cases "0 < lz77_remaining st")
    case True
    note IH = 1 [OF True]
    note s = lz77_step_source [of st width]
    have c: "lz77_consumed width st = lz77_loads st @ lz77_consumed width (lz77_step width st)"
      using True by (subst lz77_consumed.simps) simp
    have l: "lz77_loop width st = lz77_loop width (lz77_step width st)"
      using True by (subst lz77_loop.simps) simp
    from s have s1: "consecutive (lz77_source st) (lz77_loads st)" by (rule conjunct1)
    from s have s2: "lz77_source (lz77_step width st) = lz77_source st + of_nat (length (lz77_loads st))"
      by (rule conjunct2)
    from IH have i1: "consecutive (lz77_source st + of_nat (length (lz77_loads st)))
                        (lz77_consumed width (lz77_step width st))"
      unfolding s2 by (rule conjunct1)
    from IH have i2: "lz77_source (lz77_loop width (lz77_step width st))
        = lz77_source st + of_nat (length (lz77_loads st))
            + of_nat (length (lz77_consumed width (lz77_step width st)))"
      unfolding s2 by (rule conjunct2)
    have "consecutive (lz77_source st) (lz77_loads st @ lz77_consumed width (lz77_step width st))"
      using s1 i1 by (rule consecutive_append)
    moreover have "lz77_source (lz77_loop width (lz77_step width st))
        = lz77_source st + of_nat (length (lz77_loads st @ lz77_consumed width (lz77_step width st)))"
      unfolding i2 by (simp add: add.assoc)
    ultimately show ?thesis unfolding c l by (rule conjI)
  next
    case False
    then have c: "lz77_consumed width st = []" by (subst lz77_consumed.simps) simp
    from False have l: "lz77_loop width st = st" by (subst lz77_loop.simps) simp
    show ?thesis unfolding c l by simp
  qed
qed

text \<open>
  The same for \<^verbatim>\<open>_unRl\<close>: the flag byte, then the byte to repeat or the bytes that the
  uncompressed loop copies.
\<close>

fun rl_loads :: "rl_vars \<Rightarrow> u32 list" where
  "rl_loads (s, source, dest, remaining, halfword) =
     (let blockheader = loadU8 s source
      in if blockheader AND 0x80 \<noteq> 0 then [source, source + 1]
         else source # map (\<lambda>i. source + 1 + of_nat i)
                         [0..<min (unat (blockheader + 1)) (nat remaining)])"

function rl_consumed :: "int \<Rightarrow> rl_vars \<Rightarrow> u32 list" where
  "rl_consumed width st =
     (if rl_remaining st > 0 then rl_loads st @ rl_consumed width (rl_step width st) else [])"
  by pat_completeness auto
termination
  by (relation "measure (\<lambda>(width, st). nat (rl_remaining st))")
     (simp_all add: rl_step_decreases)

declare rl_consumed.simps [simp del]

lemma rl_copy_source:
  "0 \<le> remaining \<Longrightarrow>
   rl_copy width n (s, source, dest, remaining, halfword) = (s', source', dest', remaining', halfword') \<Longrightarrow>
   source' = source + of_nat (min n (nat remaining))"
proof (induction n arbitrary: s source dest remaining halfword)
  case 0
  then show ?case by simp
next
  case (Suc n)
  show ?case
  proof (cases "remaining = 0")
    case True
    with Suc.prems show ?thesis by simp
  next
    case False
    with Suc.prems(1) have pos: "0 < remaining" by simp
    obtain s1 h1 where e: "emit_byte width s dest halfword (loadU8 s source) = (s1, h1)"
      by (cases "emit_byte width s dest halfword (loadU8 s source)")
    from Suc.prems(2) False e
    have c: "rl_copy width n (s1, source + 1, dest + 1, remaining - 1, h1)
            = (s', source', dest', remaining', halfword')"
      by (simp add: Let_def)
    have r1: "0 \<le> remaining - 1" using pos by simp
    from Suc.IH [OF r1 c] show ?thesis
      unfolding min_Suc_pos [OF pos] by (simp add: add.assoc)
  qed
qed

lemma consecutive_Cons: "consecutive a (a # map (\<lambda>i. a + 1 + of_nat i) [0..<m])"
proof -
  have "a # map (\<lambda>i. a + 1 + of_nat i) [0..<m] = map (\<lambda>i. a + of_nat i) [0..<Suc m]"
    unfolding upt_Suc_shift by (simp add: comp_def add.assoc)
  then show ?thesis by (simp add: consecutive_def)
qed

lemma rl_step_source:
  assumes "0 \<le> rl_remaining st"
  shows "consecutive (rl_source st) (rl_loads st)
       \<and> rl_source (rl_step width st) = rl_source st + of_nat (length (rl_loads st))"
proof -
  obtain s source dest remaining halfword
    where st: "st = (s, source, dest, remaining, halfword)"
    by (cases st)
  from assms have r: "0 \<le> remaining" unfolding st by simp
  show ?thesis
  proof (cases "loadU8 s source AND 0x80 \<noteq> 0")
    case True
    obtain s' dest' remaining' halfword' where
      f: "rl_fill width (loadU8 s (source + 1)) (unat ((loadU8 s source AND 0x7F) + 3))
            (s, dest, remaining, halfword) = (s', dest', remaining', halfword')"
      by (cases "rl_fill width (loadU8 s (source + 1)) (unat ((loadU8 s source AND 0x7F) + 3))
            (s, dest, remaining, halfword)")
    have "rl_step width st = (s', source + 1 + 1, dest', remaining', halfword')"
      unfolding st using True f by (simp add: Let_def del: rl_fill.simps)
    then have "rl_source (rl_step width st) = source + 2" by simp
    moreover have "rl_loads st = [source, source + 1]" unfolding st using True by (simp add: Let_def)
    ultimately show ?thesis unfolding st by (simp add: consecutive_two)
  next
    case False
    define m where "m = min (unat (loadU8 s source + 1)) (nat remaining)"
    obtain s' source' dest' remaining' halfword' where
      c: "rl_copy width (unat (loadU8 s source + 1)) (s, source + 1, dest, remaining, halfword)
            = (s', source', dest', remaining', halfword')"
      by (cases "rl_copy width (unat (loadU8 s source + 1)) (s, source + 1, dest, remaining, halfword)")
    have "rl_step width st = (s', source', dest', remaining', halfword')"
      unfolding st using False c by (simp add: Let_def del: rl_copy.simps)
    then have "rl_source (rl_step width st) = source'" by simp
    also have "source' = source + 1 + of_nat m" unfolding m_def by (rule rl_copy_source [OF r c])
    finally have a: "rl_source (rl_step width st) = source + 1 + of_nat m" .
    have l: "rl_loads st = source # map (\<lambda>i. source + 1 + of_nat i) [0..<m]"
      unfolding st m_def using False by (simp add: Let_def)
    have rs: "rl_source st = source" unfolding st by simp
    have "length (source # map (\<lambda>i. source + 1 + of_nat i) [0..<m]) = Suc m" by simp
    then have "source + of_nat (length (source # map (\<lambda>i. source + 1 + of_nat i) [0..<m]))
                 = source + 1 + of_nat m"
      by (simp only: of_nat_Suc) (simp add: add.assoc)
    with consecutive_Cons [of source m] show ?thesis unfolding l a rs by (simp only: simp_thms)
  qed
qed

lemma rl_consumed_run:
  "0 \<le> rl_remaining st \<Longrightarrow>
   consecutive (rl_source st) (rl_consumed width st)
   \<and> rl_source (rl_loop width st) = rl_source st + of_nat (length (rl_consumed width st))"
proof (induction width st rule: rl_loop.induct)
  case (1 width st)
  show ?case
  proof (cases "0 < rl_remaining st")
    case True
    note IH = 1(1) [OF True rl_step_nonneg [OF True]]
    note s = rl_step_source [OF 1(2), of width]
    have c: "rl_consumed width st = rl_loads st @ rl_consumed width (rl_step width st)"
      using True by (subst rl_consumed.simps) simp
    have l: "rl_loop width st = rl_loop width (rl_step width st)"
      using True by (subst rl_loop.simps) simp
    from s have s1: "consecutive (rl_source st) (rl_loads st)" by (rule conjunct1)
    from s have s2: "rl_source (rl_step width st) = rl_source st + of_nat (length (rl_loads st))"
      by (rule conjunct2)
    from IH have i1: "consecutive (rl_source st + of_nat (length (rl_loads st)))
                        (rl_consumed width (rl_step width st))"
      unfolding s2 by (rule conjunct1)
    from IH have i2: "rl_source (rl_loop width (rl_step width st))
        = rl_source st + of_nat (length (rl_loads st))
            + of_nat (length (rl_consumed width (rl_step width st)))"
      unfolding s2 by (rule conjunct2)
    have "consecutive (rl_source st) (rl_loads st @ rl_consumed width (rl_step width st))"
      using s1 i1 by (rule consecutive_append)
    moreover have "rl_source (rl_loop width (rl_step width st))
        = rl_source st + of_nat (length (rl_loads st @ rl_consumed width (rl_step width st)))"
      unfolding i2 by (simp add: add.assoc)
    ultimately show ?thesis unfolding c l by (rule conjI)
  next
    case False
    then have c: "rl_consumed width st = []" by (subst rl_consumed.simps) simp
    from False have l: "rl_loop width st = st" by (subst rl_loop.simps) simp
    show ?thesis unfolding c l by simp
  qed
qed

text \<open>
  How far \<^verbatim>\<open>_unRl\<close> moves \<^verbatim>\<open>dest\<close>: over the declared length and the padding.  With
  \<^verbatim>\<open>width == 2\<close> an odd end takes one byte from the padding and the rest goes in halfwords.
\<close>

definition rl_advance :: "int \<Rightarrow> u32 \<Rightarrow> nat \<Rightarrow> nat" where
  "rl_advance width dest len =
     (if width = 2 then
        let odd_end = (if (dest + of_nat len) AND 1 \<noteq> 0 then 1 else 0)
        in len + odd_end + 2 * ((nat (int (pad4 len) - int odd_end) + 1) div 2)
      else len + pad4 len)"

lemma pending_and1: "pending 2 dest = (if dest AND 1 \<noteq> 0 then 1 else 0)"
  by (simp add: pending_odd and1_odd)

text \<open>
  What the decoders leave in registers 0 and 1.  LZ77 and RLE: the addresses loaded from
  the stream are consecutive from the first byte after the header, register 0 is the
  address after the last of them, register 1 is the destination advanced over the output
  (for RLE with its padding), and every store of the call ends at or before it.
  UnFilter: both registers advance by the number of bytes stored.  Huffman, for a width
  that divides 32, when it returns: the loop loads one stream word per iteration and
  register 0 is the address after the last; register 1 is the destination advanced over
  the words that the loop stored, and when the declared length is a multiple of 4 there
  is no other store.
\<close>

lemma unLz77_cursors:
  fixes s :: gba and width :: int and h0 :: u32
  defines "len \<equiv> header_length (load32 s (gprs s 0))"
  defines "consumed \<equiv> lz77_consumed width (s, gprs s 0 + 4, gprs s 1, int len, 0, 0, h0)"
  shows "consecutive (gprs s 0 + 4) consumed
       \<and> gprs (unLz77 h0 s width) 0 = gprs s 0 + 4 + of_nat (length consumed)
       \<and> gprs (unLz77 h0 s width) 1 = gprs s 1 + of_nat len
       \<and> gprs (unLz77 h0 s width) 3 = 0
       \<and> (\<forall>r. r \<notin> {0, 1, 3} \<longrightarrow> gprs (unLz77 h0 s width) r = gprs s r)
       \<and> (\<exists>evs. stores (unLz77 h0 s width) = stores s @ evs \<and> within (gprs s 1) len evs)"
proof -
  let ?st = "(s, gprs s 0 + 4, gprs s 1, int len, 0, 0, h0)"
  from unLz77_result [of h0 s width, folded len_def]
  have g: "gprs (unLz77 h0 s width)
          = (gprs s)(0 := lz77_source (lz77_loop width ?st), 1 := gprs s 1 + of_nat len, 3 := 0)"
    and e: "\<exists>evs. stores (unLz77 h0 s width) = stores s @ evs \<and> within (gprs s 1) len evs"
    by blast+
  from lz77_consumed_run [of ?st width, folded consumed_def]
  have c: "consecutive (gprs s 0 + 4) consumed"
    and r: "lz77_source (lz77_loop width ?st) = gprs s 0 + 4 + of_nat (length consumed)"
    by simp_all
  have "gprs (unLz77 h0 s width) 0 = gprs s 0 + 4 + of_nat (length consumed)"
    unfolding g r by simp
  moreover have "gprs (unLz77 h0 s width) 1 = gprs s 1 + of_nat len"
    "gprs (unLz77 h0 s width) 3 = 0"
    "\<forall>r. r \<notin> {0, 1, 3} \<longrightarrow> gprs (unLz77 h0 s width) r = gprs s r"
    unfolding g by simp_all
  ultimately show ?thesis using c e by (intro conjI)
qed

lemma unRl_cursors:
  fixes s :: gba and width :: int
  defines "len \<equiv> declared_length s"
  defines "consumed \<equiv> rl_consumed width (s, (gprs s 0 AND 0xFFFFFFFC) + 4, gprs s 1, int len, 0)"
  defines "K \<equiv> rl_advance width (gprs s 1) len"
  shows "consecutive ((gprs s 0 AND 0xFFFFFFFC) + 4) consumed
       \<and> gprs (unRl s width) 0 = (gprs s 0 AND 0xFFFFFFFC) + 4 + of_nat (length consumed)
       \<and> gprs (unRl s width) 1 = gprs s 1 + of_nat K
       \<and> (\<forall>r. r \<notin> {0, 1} \<longrightarrow> gprs (unRl s width) r = gprs s r)
       \<and> (\<exists>evs. stores (unRl s width) = stores s @ evs \<and> within (gprs s 1) K evs)"
proof -
  let ?st = "(s, (gprs s 0 AND 0xFFFFFFFC) + 4, gprs s 1, int len, 0)"
  have "0 \<le> rl_remaining ?st" by simp
  from rl_consumed_run [OF this, of width, folded consumed_def]
  have c: "consecutive ((gprs s 0 AND 0xFFFFFFFC) + 4) consumed"
    and r: "rl_source (rl_loop width ?st) = (gprs s 0 AND 0xFFFFFFFC) + 4 + of_nat (length consumed)"
    by simp_all
  have g: "gprs (unRl s width) = (gprs s)(0 := rl_source (rl_loop width ?st), 1 := gprs s 1 + of_nat K)"
    and e: "\<exists>evs. stores (unRl s width) = stores s @ evs \<and> within (gprs s 1) K evs"
  proof -
    show "gprs (unRl s width) = (gprs s)(0 := rl_source (rl_loop width ?st), 1 := gprs s 1 + of_nat K)"
    proof (cases "width = 2")
      case False
      have k: "K = len + pad4 len" unfolding K_def rl_advance_def using False by simp
      from unRl_bytes [OF False, of s, unfolded dl, folded len_def] show ?thesis
        unfolding k by blast
    next
      case True
      have k: "K = len + pending 2 (gprs s 1 + of_nat len)
                 + 2 * ((nat (int (pad4 len) - int (pending 2 (gprs s 1 + of_nat len))) + 1) div 2)"
        unfolding K_def rl_advance_def pending_and1 using True by (simp add: Let_def)
      from unRl_halfwords [of s, unfolded dl, folded len_def] show ?thesis
        unfolding k True by blast
    qed
    show "\<exists>evs. stores (unRl s width) = stores s @ evs \<and> within (gprs s 1) K evs"
    proof (cases "width = 2")
      case False
      have k: "K = len + pad4 len" unfolding K_def rl_advance_def using False by simp
      from unRl_bytes [OF False, of s, unfolded dl, folded len_def]
      have "\<exists>evs pads. stores (unRl s width) = stores s @ evs @ pads
              \<and> within (gprs s 1) (len + pad4 len) (evs @ pads)"
        by blast
      then show ?thesis unfolding k by blast
    next
      case True
      have k: "K = len + pending 2 (gprs s 1 + of_nat len)
                 + 2 * ((nat (int (pad4 len) - int (pending 2 (gprs s 1 + of_nat len))) + 1) div 2)"
        unfolding K_def rl_advance_def pending_and1 using True by (simp add: Let_def)
      from unRl_halfwords [of s, unfolded dl, folded len_def]
      have "\<exists>evs pads. stores (unRl s 2) = stores s @ evs @ pads
              \<and> within (gprs s 1) (len + pending 2 (gprs s 1 + of_nat len)
                 + 2 * ((nat (int (pad4 len) - int (pending 2 (gprs s 1 + of_nat len))) + 1) div 2))
                   (evs @ pads)"
        by blast
      then show ?thesis unfolding k True by blast
    qed
  qed
  have "gprs (unRl s width) 0 = (gprs s 0 AND 0xFFFFFFFC) + 4 + of_nat (length consumed)"
    unfolding g r by simp
  moreover have "gprs (unRl s width) 1 = gprs s 1 + of_nat K"
    "\<forall>r. r \<notin> {0, 1} \<longrightarrow> gprs (unRl s width) r = gprs s r"
    unfolding g by simp_all
  ultimately show ?thesis using c e by (intro conjI)
qed

lemma unFilter_cursors:
  fixes s :: gba
  assumes "(inwidth, outwidth) \<in> {(1, 1), (1, 2), (2, 2)}"
  defines "K \<equiv> unFilter_count outwidth (declared_length s)"
  shows "\<exists>s'. unFilter s inwidth outwidth = Some s'
       \<and> gprs s' 0 = (gprs s 0 AND 0xFFFFFFFC) + 4 + of_nat K
       \<and> gprs s' 1 = gprs s 1 + of_nat K
       \<and> (\<forall>r. r \<notin> {0, 1} \<longrightarrow> gprs s' r = gprs s r)
       \<and> (\<exists>evs. stores s' = stores s @ evs \<and> within (gprs s 1) K evs)"
proof -
  from unFilter_result [OF assms(1), of s, unfolded dl, folded K_def] obtain s' where
    u: "unFilter s inwidth outwidth = Some s'"
    and g: "gprs s' = (gprs s)(0 := (gprs s 0 AND 0xFFFFFFFC) + 4 + of_nat K, 1 := gprs s 1 + of_nat K)"
    and e: "\<exists>evs. stores s' = stores s @ evs \<and> bytes_stored evs = K \<and> within (gprs s 1) K evs"
    by blast
  from e have "\<exists>evs. stores s' = stores s @ evs \<and> within (gprs s 1) K evs" by blast
  with u show ?thesis unfolding g by (intro exI [of _ s']) (simp add: g)
qed

lemma unHuffman_cursors:
  fixes s :: gba
  assumes "huff_bits_of s \<noteq> 0" "32 mod huff_bits_of s = 0" "unHuffman s = Some (Inr s')"
  defines "K \<equiv> 4 * (declared_length s div 4)"
  defines "word \<equiv> huff_word (huff_bits_of s) ((gprs s 0 AND 0xFFFFFFFC) + 5)"
  shows "\<exists>k evs flush.
            huff_loop (huff_bits_of s) ((gprs s 0 AND 0xFFFFFFFC) + 5) (huff_entry s)
              = Some ((word ^^ k) (huff_entry s))
          \<and> (\<forall>j<k. 0 < huff_remaining ((word ^^ j) (huff_entry s)))
          \<and> gprs s' 0 = fst (huff_entry s) + 4 * of_nat k
          \<and> gprs s' 1 = gprs s 1 + of_nat K
          \<and> (\<forall>r. r \<notin> {0, 1} \<longrightarrow> gprs s' r = gprs s r)
          \<and> stores s' = stores s @ evs @ flush
          \<and> within (gprs s 1) K evs
          \<and> (declared_length s mod 4 = 0 \<longrightarrow> flush = [])
          \<and> (declared_length s mod 4 \<noteq> 0 \<longrightarrow> flush = [Store32 (gprs s' 1) 0])"
proof -
  from unHuffman_result [OF assms(1-3), folded K_def] obtain final evs block where
    l: "huff_loop (huff_bits_of s) ((gprs s 0 AND 0xFFFFFFFC) + 5) (huff_entry s) = Some final"
    and g: "gprs s' = (gprs s)(0 := fst final, 1 := gprs s 1 + of_nat K)"
    and st: "stores s' = stores s @ evs
          @ (if declared_length s mod 4 = 0 then [] else [Store32 (gprs s 1 + of_nat K) block])"
    and w: "within (gprs s 1) K evs"
    and b: "block = 0"
    by blast
  from huff_loop_words [OF l, folded word_def] obtain k where
    k: "final = (word ^^ k) (huff_entry s)" "fst final = fst (huff_entry s) + 4 * of_nat k"
       "\<forall>j<k. 0 < huff_remaining ((word ^^ j) (huff_entry s))"
    by blast
  have g0: "gprs s' 0 = fst (huff_entry s) + 4 * of_nat k" unfolding g k(2) by simp
  have g1: "gprs s' 1 = gprs s 1 + of_nat K" unfolding g by simp
  have gr: "\<forall>r. r \<notin> {0, 1} \<longrightarrow> gprs s' r = gprs s r" unfolding g by simp
  let ?flush = "if declared_length s mod 4 = 0 then [] else [Store32 (gprs s 1 + of_nat K) block]"
  have f1: "declared_length s mod 4 = 0 \<longrightarrow> ?flush = []" by simp
  have f2: "declared_length s mod 4 \<noteq> 0 \<longrightarrow> ?flush = [Store32 (gprs s' 1) 0]"
    unfolding g1 b by simp
  from l [unfolded k(1)] k(3) g0 g1 gr st w f1 f2
  show ?thesis by (intro exI [of _ k] exI [of _ evs] exI [of _ ?flush] conjI)
qed

text \<open>
  C7 (the code departs from it on a Huffman stream whose declared length is not a
  multiple of 4): on return register 1 is to hold the destination pointer advanced past
  all produced output.  The main loop of \<^verbatim>\<open>_unHuffman\<close> stores whole words and adds 4
  to \<^verbatim>\<open>dest\<close> after each, as the padding loops of \<^verbatim>\<open>_unRl\<close> advance theirs; the flush
  after the loop stores one more word at \<^verbatim>\<open>dest\<close> and does not advance it.  On a header
  that declares 5 bytes the decoder stores a word at \<open>0x03000000\<close>, then the flushed
  word at \<open>0x03000004\<close>, which ends at \<open>0x03000008\<close>, and returns with register 1 at
  \<open>0x03000004\<close>: the last store lies at the pointer, not before it.  The flushed word
  is 0: the loop runs for the whole words only, so the fifth byte is never decoded.
\<close>

theorem unHuffman_flush_at_r1:
  "declared_length huff_example = 5
   \<and> map_option (map_sum id (reg 1)) (unHuffman huff_example) = Some (Inr 0x03000004)
   \<and> map_option (map_sum id stores) (unHuffman huff_example)
       = Some (Inr [Store32 0x03000000 0x41414141, Store32 0x03000004 0])
   \<and> store_end (Store32 0x03000004 0) = 0x03000008"
  by code_simp

text \<open>Two short streams, of two literal bytes each, and what the decoders leave on them.\<close>

definition lz_short_example :: gba where
  "lz_short_example = gba0\<lparr>gprs := (\<lambda>r. 0)(0 := 0x02000000, 1 := 0x03000000),
      mem := bytes_at 0x02000000 [0x10, 0x02, 0, 0, 0x00, 0x41, 0x42]\<rparr>"

definition rl_short_example :: gba where
  "rl_short_example = gba0\<lparr>gprs := (\<lambda>r. 0)(0 := 0x02000000, 1 := 0x03000000),
      mem := bytes_at 0x02000000 [0x30, 0x02, 0, 0, 0x01, 0x41, 0x42]\<rparr>"

lemma cursor_examples:
  "lz77_consumed 1 (lz_short_example, 0x02000004, 0x03000000, 2, 0, 0, 0)
     = [0x02000004, 0x02000005, 0x02000006]"
  "reg 0 (unLz77 0 lz_short_example 1) = 0x02000007"
  "reg 1 (unLz77 0 lz_short_example 1) = 0x03000002"
  "rl_consumed 1 (rl_short_example, 0x02000004, 0x03000000, 2, 0)
     = [0x02000004, 0x02000005, 0x02000006]"
  "reg 0 (unRl rl_short_example 1) = 0x02000007"
  "reg 1 (unRl rl_short_example 1) = 0x03000004"
  "reg 1 (unRl rl_short_example 2) = 0x03000004"
  by code_simp+

lemma rl_advance_example: "rl_advance 1 0x03000000 2 = 4 \<and> rl_advance 2 0x03000000 2 = 4"
  by (simp add: rl_advance_def pad4_def)

definition huff3_example :: gba where
  "huff3_example = gba0\<lparr>gprs := (\<lambda>r. 0)(0 := 0x02000000, 1 := 0x03000000),
      mem := bytes_at 0x02000000 [0x23, 0x05, 0, 0, 0x01, 0xC0, 0x41, 0x42]\<rparr>"

lemma rl_example_facts:
  "gprs rl_example 0 = 0x02000000" "gprs rl_example 1 = 0x03000000"
  "gprs rl_example (Suc 0) = 0x03000000"
  "header_length (load32 rl_example 0x02000000) = 10" "declared_length rl_example = 10"
  "pad4 10 = 2"
  by (simp_all add: rl_example_def declared_length_def header_length_def load32_def bytes_at_def pad4_def)

lemma huff_example_facts:
  "huff_bits_of huff_example = 8" "declared_length huff_example = 5" "pad4 5 = 3"
  "gprs huff_example 1 = 0x03000000" "gprs huff_example (Suc 0) = 0x03000000"
  by (simp_all add: huff_example_def huff_bits_of_def declared_length_def header_length_def
      load32_def bytes_at_def pad4_def)

lemma huff3_example_facts:
  "huff_bits_of huff3_example = 3"
  by (simp_all add: huff3_example_def huff_bits_of_def load32_def bytes_at_def)

lemma huff_example_returns: "\<exists>s'. unHuffman huff_example = Some (Inr s')"
proof -
  have "map_option (map_sum id stores) (unHuffman huff_example)
       = Some (Inr [Store32 0x03000000 0x41414141, Store32 0x03000004 0])"
    by code_simp
  then show ?thesis
    by (cases "unHuffman huff_example") (auto simp: map_sum_def split: sum.splits)
qed

theorem decoders_bytes_written_witness:
  "(1::int) \<noteq> 2 \<and> even (gprs rl_example 1) \<and> even (declared_length rl_example)
   \<and> written rl_example (unLz77 0 rl_example 1) = 10
   \<and> written rl_example (unLz77 0 rl_example 2) = 10
   \<and> written rl_example (unRl rl_example 1) = 12
   \<and> written rl_example (unRl rl_example 2) = 12
   \<and> (\<exists>s'. unFilter rl_example 1 2 = Some s' \<and> written rl_example s' = 10)
   \<and> huff_bits_of huff_example \<noteq> 0 \<and> 32 mod huff_bits_of huff_example = 0
   \<and> (\<exists>s'. unHuffman huff_example = Some (Inr s') \<and> written huff_example s' = 8)
   \<and> huff_bits_of huff3_example \<noteq> 0 \<and> 32 mod huff_bits_of huff3_example \<noteq> 0
   \<and> (\<exists>s'. unHuffman huff3_example = Some (Inr s') \<and> written huff3_example s' = 0)"
proof -
  note t = decoders_bytes_written [of 1 rl_example 0]
  note h = decoders_bytes_written [of 1 huff_example 0]
  note h3 = decoders_bytes_written [of 1 huff3_example 0]
  have e: "even (gprs rl_example 1)" "even (declared_length rl_example)"
          "even (header_length (load32 rl_example (gprs rl_example 0)))"
    by (simp_all add: rl_example_facts)
  from t have "written rl_example (unLz77 0 rl_example 1) = 10"
    by (simp add: rl_example_facts)
  moreover from t e have "written rl_example (unLz77 0 rl_example 2) = 10"
    by (simp add: rl_example_facts)
  moreover from t have "written rl_example (unRl rl_example 1) = 12"
    by (simp add: rl_example_facts)
  moreover from t e have "written rl_example (unRl rl_example 2) = 12"
    by (simp add: rl_example_facts)
  moreover from t have "\<exists>s'. unFilter rl_example 1 2 = Some s' \<and> written rl_example s' = 10"
    by (simp add: rl_example_facts)
  moreover from h huff_example_returns
  have "\<exists>s'. unHuffman huff_example = Some (Inr s') \<and> written huff_example s' = 8"
    by (auto simp: huff_example_facts)
  moreover from h3
  have "\<exists>s'. unHuffman huff3_example = Some (Inr s') \<and> written huff3_example s' = 0"
    by (simp add: huff3_example_facts)
  ultimately show ?thesis using e by (simp add: huff_example_facts huff3_example_facts)
qed

section \<open>Compressed chunks of LZ77\<close>

text \<open>
  The two bytes of a compressed chunk, as \<^verbatim>\<open>_unLz77\<close> assembles them into
  \<^verbatim>\<open>block\<close>, and the fields it takes from \<^verbatim>\<open>block\<close>.
\<close>

lemma m4: "(0x000F :: u32) = mask 4"
  by (simp add: mask_numeral)
lemma m4_8: "(0x0F :: u8) = mask 4"
  by (simp add: mask_numeral)
lemma mF0: "(0x00F0 :: u32) = push_bit 4 (mask 4)"
  by (simp add: mask_numeral)
lemma mFF00: "(0xFF00 :: u32) = push_bit 8 (mask 8)"
  by (simp add: mask_numeral)

lemma lz77_disp_bytes:
  fixes b0 b1 :: u8
  shows "lz77_disp (ucast b0 OR push_bit 8 (ucast b1)) = push_bit 8 (ucast (b0 AND 0x0F)) OR ucast b1"
  unfolding lz77_disp_def m4 m4_8 mFF00
  by (rule bit_word_eqI) (auto simp: bit_simps dest: bit_imp_le_length)

lemma lz77_bytes_bytes:
  fixes b0 b1 :: u8
  shows "drop_bit 4 ((ucast b0 OR push_bit 8 (ucast b1)) AND (0x00F0 :: u32)) = ucast (drop_bit 4 b0)"
  unfolding mF0
  by (rule bit_word_eqI) (auto simp: bit_simps dest: bit_imp_le_length)

lemma lz77_disp_less:
  fixes b0 b1 :: u8
  shows "unat (push_bit 8 (ucast (b0 AND 0x0F)) OR ucast b1 :: u32) < 4096"
proof -
  let ?d = "push_bit 8 (ucast (b0 AND 0x0F)) OR ucast b1 :: u32"
  have t: "take_bit 12 ?d = ?d"
    unfolding m4_8 by (rule bit_word_eqI) (auto simp: bit_simps dest: bit_imp_le_length)
  have "unat (take_bit 12 ?d) = take_bit 12 (unat ?d)" by (rule unsigned_take_bit_eq)
  then have "unat ?d = take_bit 12 (unat ?d)" by (simp only: t)
  also have "\<dots> < 2 ^ 12" by (rule take_bit_nat_less_exp)
  finally show ?thesis by simp
qed

lemma unat_ucast_8_32: "unat (ucast (x :: u8) :: u32) = unat x"
proof -
  have "unat x < 2 ^ 8" using unsigned_less [of x] by simp
  then have "unat x < 2 ^ 32" by simp
  then show ?thesis by (simp add: unsigned_ucast_eq take_bit_nat_eq_self)
qed

lemma lz77_bytes_value:
  fixes b0 b1 :: u8
  shows "lz77_bytes (ucast b0 OR push_bit 8 (ucast b1)) = unat (drop_bit 4 b0) + 3"
    and "lz77_bytes (ucast b0 OR push_bit 8 (ucast b1)) \<le> 18"
proof -
  show v: "lz77_bytes (ucast b0 OR push_bit 8 (ucast b1)) = unat (drop_bit 4 b0) + 3"
    unfolding lz77_bytes_def lz77_bytes_bytes unat_ucast_8_32 ..
  have "unat b0 < 2 ^ 8" using unsigned_less [of b0] by simp
  then have "unat b0 div 16 < 16" by simp
  then have "unat (drop_bit 4 b0) \<le> 15" by (simp add: drop_bit_eq_div unat_div)
  with v show "lz77_bytes (ucast b0 OR push_bit 8 (ucast b1)) \<le> 18" by simp
qed

lemma unat_of_nat_small: "m < 2 ^ 32 \<Longrightarrow> unat (of_nat m :: u32) = m"
  by (simp add: unat_of_nat)

lemma no_wrap:
  assumes "unat (p :: u32) + m < 2 ^ 32" "0 < m"
  shows "p + of_nat m \<noteq> 0"
proof
  assume z: "p + of_nat m = 0"
  have m: "m < 2 ^ 32" using assms(1) by simp
  have "unat (p + of_nat m) = (unat p + unat (of_nat m :: u32)) mod 2 ^ 32"
    by (simp add: unat_word_ariths)
  also have "\<dots> = (unat p + m) mod 2 ^ 32" by (simp only: unat_of_nat_small [OF m])
  also have "\<dots> = unat p + m" using assms(1) by simp
  finally have "unat (p + of_nat m) = unat p + m" .
  with z assms(2) show False by simp
qed

lemma no_wrap_dest: "Suc i < 2 ^ 32 \<Longrightarrow> (dest :: u32) \<noteq> dest + 1 + of_nat i"
proof -
  assume a: "Suc i < 2 ^ 32"
  have "unat (0 :: u32) + Suc i < 2 ^ 32" using a by simp
  from no_wrap [OF this] have "(0 :: u32) + of_nat (Suc i) \<noteq> 0" by simp
  then show ?thesis by simp
qed

lemma no_wrap_disp:
  assumes "unat (dest - disp :: u32) + Suc i < 2 ^ 32"
  shows "disp \<noteq> dest + 1 + of_nat i"
proof
  assume "disp = dest + 1 + of_nat i"
  then have "dest - disp + of_nat (Suc i) = 0" by simp
  with no_wrap [OF assms] show False by simp
qed

lemma emit_byte_bytewise:
  "width \<noteq> 2 \<Longrightarrow> emit_byte width s dest halfword byte = (store8 s dest byte, halfword)"
  by (simp add: emit_byte_def)

lemma mem_store8: "mem (store8 s a v) = (mem s)(a := ucast v)"
  by (simp add: store8_def)

lemma lz77_copy_overlap:
  assumes "width \<noteq> 2" "0 \<le> remaining"
    and "lz77_copy width n (s, disp, dest, remaining, halfword) = (s', disp', dest', remaining', halfword')"
    and "disp \<noteq> dest" "unat (dest - disp) + n < 2 ^ 32"
  shows "(\<forall>i<min n (nat remaining). mem s' (dest + of_nat i) = mem s' (disp + of_nat i))
       \<and> (\<forall>a. (\<forall>i<min n (nat remaining). a \<noteq> dest + of_nat i) \<longrightarrow> mem s' a = mem s a)
       \<and> stores s' = stores s
            @ map (\<lambda>i. Store8 (dest + of_nat i) (mem s' (dest + of_nat i))) [0..<min n (nat remaining)]"
  using assms
proof (induction n arbitrary: s disp dest remaining halfword)
  case 0
  then show ?case by simp
next
  case (Suc n)
  note w = \<open>width \<noteq> 2\<close>
  show ?case
  proof (cases "remaining = 0")
    case True
    with Suc.prems(3) show ?thesis by simp
  next
    case False
    with Suc.prems(2) have pos: "0 < remaining" by simp
    define s1 where "s1 = store8 s dest (loadU8 s disp)"
    define k where "k = min n (nat (remaining - 1))"
    have kk: "min (Suc n) (nat remaining) = Suc k" unfolding k_def using pos by (rule min_Suc_pos)
    from Suc.prems(3) False w
    have c: "lz77_copy width n (s1, disp + 1, dest + 1, remaining - 1, halfword)
               = (s', disp', dest', remaining', halfword')"
      by (simp add: Let_def emit_byte_bytewise s1_def)
    have nw: "unat (dest + 1 - (disp + 1)) + n < 2 ^ 32" using Suc.prems(5) by simp
    have ne: "disp + 1 \<noteq> dest + 1" using Suc.prems(4) by simp
    have r1: "0 \<le> remaining - 1" using pos by simp
    note IH = Suc.IH [OF w r1 c ne nw, folded k_def]
    from IH have A: "\<forall>i<k. mem s' (dest + 1 + of_nat i) = mem s' (disp + 1 + of_nat i)"
      by (rule conjunct1)
    from IH have B: "\<forall>a. (\<forall>i<k. a \<noteq> dest + 1 + of_nat i) \<longrightarrow> mem s' a = mem s1 a"
      by (rule conjunct2 [THEN conjunct1])
    from IH have C: "stores s' = stores s1
                @ map (\<lambda>i. Store8 (dest + 1 + of_nat i) (mem s' (dest + 1 + of_nat i))) [0..<k]"
      by (rule conjunct2 [THEN conjunct2])
    have kn: "k \<le> n" unfolding k_def by simp
    have n32: "unat (dest - disp) + Suc n < 2 ^ 32" using Suc.prems(5) by simp
    have d1: "\<forall>i<k. dest \<noteq> dest + 1 + of_nat i"
    proof (intro allI impI)
      fix i assume "i < k"
      with kn n32 have "Suc i < 2 ^ 32" by linarith
      then show "dest \<noteq> dest + 1 + of_nat i" by (rule no_wrap_dest)
    qed
    have d2: "\<forall>i<k. disp \<noteq> dest + 1 + of_nat i"
    proof (intro allI impI)
      fix i assume "i < k"
      with kn n32 have "unat (dest - disp) + Suc i < 2 ^ 32" by linarith
      then show "disp \<noteq> dest + 1 + of_nat i" by (rule no_wrap_disp)
    qed
    have "mem s' dest = mem s1 dest" using B d1 by blast
    then have m_dest: "mem s' dest = mem s disp"
      by (simp add: s1_def mem_store8 loadU8_def)
    have "mem s' disp = mem s1 disp" using B d2 by blast
    then have m_disp: "mem s' disp = mem s disp"
      using Suc.prems(4) by (simp add: s1_def mem_store8)
    have A': "\<forall>i<Suc k. mem s' (dest + of_nat i) = mem s' (disp + of_nat i)"
    proof (intro allI impI)
      fix i assume i: "i < Suc k"
      show "mem s' (dest + of_nat i) = mem s' (disp + of_nat i)"
      proof (cases i)
        case 0
        with m_dest m_disp show ?thesis by simp
      next
        case (Suc j)
        with i have "j < k" by simp
        with A have "mem s' (dest + 1 + of_nat j) = mem s' (disp + 1 + of_nat j)" by blast
        then show ?thesis unfolding Suc by (simp add: add.assoc)
      qed
    qed
    have B': "\<forall>a. (\<forall>i<Suc k. a \<noteq> dest + of_nat i) \<longrightarrow> mem s' a = mem s a"
    proof (intro allI impI)
      fix a assume a: "\<forall>i<Suc k. a \<noteq> dest + of_nat i"
      from a [rule_format, of 0] have a0: "a \<noteq> dest" by simp
      have "\<forall>i<k. a \<noteq> dest + 1 + of_nat i"
      proof (intro allI impI)
        fix i assume "i < k"
        then have "Suc i < Suc k" by simp
        from a [rule_format, OF this] show "a \<noteq> dest + 1 + of_nat i" by (simp add: add.assoc)
      qed
      with B have "mem s' a = mem s1 a" by blast
      with a0 show "mem s' a = mem s a" by (simp add: s1_def mem_store8)
    qed
    have s1s: "stores s1 = stores s @ [Store8 dest (mem s' dest)]"
      unfolding m_dest by (simp add: s1_def loadU8_def)
    have C': "stores s' = stores s
            @ map (\<lambda>i. Store8 (dest + of_nat i) (mem s' (dest + of_nat i))) [0..<Suc k]"
      unfolding C s1s map_upt_Suc by (simp add: add.assoc)
    show ?thesis unfolding kk using A' B' C' by (intro conjI)
  qed
qed

lemma lz77_copy_cursors:
  "0 \<le> remaining \<Longrightarrow>
   lz77_copy width n (s, disp, dest, remaining, halfword) = (s', disp', dest', remaining', halfword') \<Longrightarrow>
   disp' = disp + of_nat (min n (nat remaining)) \<and> dest' = dest + of_nat (min n (nat remaining))
   \<and> remaining' = remaining - int (min n (nat remaining))"
proof (induction n arbitrary: s disp dest remaining halfword)
  case 0
  then show ?case by simp
next
  case (Suc n)
  show ?case
  proof (cases "remaining = 0")
    case True
    with Suc.prems show ?thesis by simp
  next
    case False
    with Suc.prems(1) have pos: "0 < remaining" by simp
    obtain s1 h1 where e: "emit_byte width s dest halfword (loadU8 s disp) = (s1, h1)"
      by (cases "emit_byte width s dest halfword (loadU8 s disp)")
    from Suc.prems(2) False e
    have c: "lz77_copy width n (s1, disp + 1, dest + 1, remaining - 1, h1)
            = (s', disp', dest', remaining', halfword')"
      by (simp add: Let_def)
    have r1: "0 \<le> remaining - 1" using pos by simp
    note IH = Suc.IH [OF r1 c]
    show ?thesis unfolding min_Suc_pos [OF pos] using IH by (simp add: add.assoc)
  qed
qed

lemma lz77_block_fields:
  "lz77_disp (loadU8 s a OR push_bit 8 (loadU8 s (a + 1)))
     = push_bit 8 (ucast (mem s a AND 0x0F)) OR ucast (mem s (a + 1))"
  "lz77_bytes (loadU8 s a OR push_bit 8 (loadU8 s (a + 1))) = unat (drop_bit 4 (mem s a)) + 3"
  unfolding loadU8_def by (rule lz77_disp_bytes, rule lz77_bytes_value(1))

lemma of_nat_unat32: "of_nat (unat (d :: u32)) = d"
  by simp

lemma back_no_wrap:
  assumes "unat (d :: u32) < 4096" "i \<le> unat d" "j < 18"
  shows "dest - d - 1 + of_nat i \<noteq> dest + of_nat j"
proof
  assume e: "dest - d - 1 + of_nat i = dest + of_nat j"
  define m where "m = unat d - i"
  have "unat d = i + m" using assms(2) unfolding m_def by simp
  then have "(of_nat (unat d) :: u32) = of_nat (i + m)" by (rule arg_cong)
  then have d: "d = of_nat i + of_nat m" by (simp only: of_nat_unat32 of_nat_add)
  from e have "of_nat m + (1 + of_nat j) = (0 :: u32)" unfolding d by (simp add: algebra_simps)
  then have z: "(of_nat m :: u32) + of_nat (Suc j) = 0" by (simp add: algebra_simps)
  have "m < 4096" using assms(1) unfolding m_def by simp
  then have "unat (of_nat m :: u32) = m" by (simp add: unat_of_nat)
  with \<open>m < 4096\<close> assms(3) have "unat (of_nat m :: u32) + Suc j < 2 ^ 32" by simp
  from no_wrap [OF this] z show False by simp
qed

lemma back_own:
  assumes "unat (d :: u32) < i"
  shows "dest - d - 1 + of_nat i = dest + of_nat (i - unat d - 1)"
proof -
  have "i = Suc (unat d) + (i - unat d - 1)" using assms by simp
  then have "(of_nat i :: u32) = of_nat (Suc (unat d) + (i - unat d - 1))" by (rule arg_cong)
  then have "(of_nat i :: u32) = 1 + d + of_nat (i - unat d - 1)"
    by (simp only: of_nat_add of_nat_Suc of_nat_unat32)
  then show ?thesis by (simp add: algebra_simps)
qed

text \<open>
  The output as decoded so far.  With \<^verbatim>\<open>width == 2\<close> a byte produced at an even
  destination waits in \<^verbatim>\<open>halfword\<close> until the next byte brings the 16-bit store; at an
  odd \<^verbatim>\<open>dest\<close> the view puts it at \<^verbatim>\<open>dest - 1\<close>, where that store will put it.  For any
  other width, and at an even \<^verbatim>\<open>dest\<close>, the view is memory.
\<close>

definition lz77_view :: "int \<Rightarrow> gba \<Rightarrow> u32 \<Rightarrow> u32 \<Rightarrow> u32 \<Rightarrow> u8" where
  "lz77_view width s dest halfword =
     (if width = 2 \<and> dest AND 1 \<noteq> 0 then (mem s)(dest - 1 := ucast halfword) else mem s)"

lemma xor1_odd: "odd (w :: u32) \<Longrightarrow> w XOR 1 = w - 1"
  by (simp add: xor_one_eq)

lemma byte_drop8: "(h :: u32) < 0x100 \<Longrightarrow> drop_bit 8 h = 0"
  by (simp add: drop_bit_eq_div word_less_nat_alt word_eq_iff_unsigned [where ?'a = nat] unat_div)

lemma loadU8_byte: "loadU8 s a < 0x100"
  using loadU8_less [of s a] by (simp add: word_less_nat_alt)

lemma pair_low: "(ucast ((h :: u32) OR push_bit 8 (r :: u32)) :: u8) = ucast h"
  by (rule bit_word_eqI) (auto simp: bit_simps)

lemma pair_high:
  "drop_bit 8 (h :: u32) = 0 \<Longrightarrow> (ucast (drop_bit 8 (h OR push_bit 8 (r :: u32))) :: u8) = ucast r"
proof -
  assume z: "drop_bit 8 h = 0"
  have "drop_bit 8 (h OR push_bit 8 r) = drop_bit 8 h OR drop_bit 8 (push_bit 8 r)"
    by (rule bit_word_eqI) (auto simp: bit_simps)
  then have "drop_bit 8 (h OR push_bit 8 r) = drop_bit 8 (push_bit 8 r)" by (simp add: z)
  then show ?thesis
    by (simp only:) (rule bit_word_eqI, auto simp: bit_simps)
qed

lemma pair_u16:
  assumes "drop_bit 8 (h :: u32) = 0"
  shows "(ucast (h OR push_bit 8 (r :: u32)) :: u16)
           = ucast (ucast h :: u8) OR push_bit 8 (ucast (ucast r :: u8))"
proof (rule bit_word_eqI)
  fix n assume n: "n < LENGTH(16)"
  have h: "\<not> bit h m" if "8 \<le> m" for m
  proof -
    from that obtain k where "m = 8 + k" using le_Suc_ex by blast
    moreover have "bit (drop_bit 8 h) k = bit h (8 + k)" by (simp add: bit_simps)
    ultimately show ?thesis by (simp add: assms)
  qed
  show "bit (ucast (h OR push_bit 8 r) :: u16) n
      = bit (ucast (ucast h :: u8) OR push_bit 8 (ucast (ucast r :: u8)) :: u16) n"
    using n h [of n] by (auto simp: bit_simps)
qed

lemma odd_Suc_word: "((dest :: u32) + 1) AND 1 \<noteq> 0 \<longleftrightarrow> dest AND 1 = 0"
  using and1_odd [of "dest + 1"] and1_odd [of dest] by simp

lemma mem_store16: "mem (store16 s a v) = (mem s)(a := ucast v, a + 1 := ucast (drop_bit 8 v))"
  by (simp add: store16_def)

lemma emit_byte_pair:
  assumes h: "dest AND 1 \<noteq> 0 \<longrightarrow> halfword < 0x100"
    and e: "emit_byte 2 s dest halfword byte = (s1, h1)"
    and b: "byte < 0x100"
  shows "lz77_view 2 s1 (dest + 1) h1 = (lz77_view 2 s dest halfword)(dest := ucast byte)"
    and "(dest + 1) AND 1 \<noteq> 0 \<longrightarrow> h1 < 0x100"
    and "stores s1 = stores s
           @ (if dest AND 1 \<noteq> 0
              then [Store16 (dest - 1) (ucast (ucast halfword :: u8) OR push_bit 8 (ucast (ucast byte :: u8)))]
              else [])"
    and "\<forall>a. a \<noteq> dest - 1 \<and> a \<noteq> dest \<longrightarrow> mem s1 a = mem s a"
    and "dest AND 1 = 0 \<longrightarrow> mem s1 = mem s"
proof -
  show "lz77_view 2 s1 (dest + 1) h1 = (lz77_view 2 s dest halfword)(dest := ucast byte)"
  proof (cases "dest AND 1 \<noteq> 0")
    case True
    then have o: "odd dest" by (simp add: and1_odd)
    from True h have z: "drop_bit 8 halfword = 0" by (simp add: byte_drop8)
    from e True have s1: "s1 = store16 s (dest - 1) (halfword OR push_bit 8 byte)"
      by (auto simp add: emit_byte_def Let_def xor1_odd [OF o])
    have n: "\<not> ((dest + 1) AND 1 \<noteq> 0)" using True by (simp add: odd_Suc_word)
    have "mem s1 = (mem s)(dest - 1 := ucast halfword, dest - 1 + 1 := ucast byte)"
      unfolding s1 mem_store16 pair_low pair_high [OF z] ..
    then have m: "mem s1 = (mem s)(dest - 1 := ucast halfword, dest := ucast byte)" by simp
    show ?thesis
      unfolding lz77_view_def using True n by (simp add: m)
  next
    case False
    with e have s1: "s1 = s" "h1 = byte" by (simp_all add: emit_byte_def)
    have n: "(dest + 1) AND 1 \<noteq> 0" using False by (simp add: odd_Suc_word)
    show ?thesis
      unfolding lz77_view_def s1 using False n by simp
  qed
  show "(dest + 1) AND 1 \<noteq> 0 \<longrightarrow> h1 < 0x100"
  proof
    assume "(dest + 1) AND 1 \<noteq> 0"
    then have "dest AND 1 = 0" by (simp add: odd_Suc_word)
    with e have "h1 = byte" by (simp add: emit_byte_def)
    with b show "h1 < 0x100" by simp
  qed
  show "stores s1 = stores s
           @ (if dest AND 1 \<noteq> 0
              then [Store16 (dest - 1) (ucast (ucast halfword :: u8) OR push_bit 8 (ucast (ucast byte :: u8)))]
              else [])"
  proof (cases "dest AND 1 \<noteq> 0")
    case True
    then have o: "odd dest" by (simp add: and1_odd)
    from True h have z: "drop_bit 8 halfword = 0" by (simp add: byte_drop8)
    from e True have s1: "s1 = store16 s (dest - 1) (halfword OR push_bit 8 byte)"
      by (auto simp add: emit_byte_def Let_def xor1_odd [OF o])
    show ?thesis unfolding s1 using True by (simp add: pair_u16 [OF z])
  next
    case False
    with e have s1: "s1 = s" by (simp_all add: emit_byte_def)
    show ?thesis unfolding s1 using False by simp
  qed
  show "\<forall>a. a \<noteq> dest - 1 \<and> a \<noteq> dest \<longrightarrow> mem s1 a = mem s a"
  proof (cases "dest AND 1 \<noteq> 0")
    case True
    then have o: "odd dest" by (simp add: and1_odd)
    from e True have s1: "s1 = store16 s (dest - 1) (halfword OR push_bit 8 byte)"
      by (auto simp add: emit_byte_def Let_def xor1_odd [OF o])
    show ?thesis unfolding s1 by (simp add: store16_def)
  next
    case False
    with e have s1: "s1 = s" by (simp_all add: emit_byte_def)
    show ?thesis unfolding s1 by simp
  qed
  show "dest AND 1 = 0 \<longrightarrow> mem s1 = mem s"
    using e by (auto simp add: emit_byte_def)
qed

lemma no_wrap_below: "Suc (Suc i) < 2 ^ 32 \<Longrightarrow> (dest :: u32) - 1 \<noteq> dest + 1 + of_nat i"
proof
  assume a: "Suc (Suc i) < 2 ^ 32" and e: "dest - 1 = dest + 1 + of_nat i"
  have "unat (0 :: u32) + Suc (Suc i) < 2 ^ 32" using a by simp
  from no_wrap [OF this] have "(0 :: u32) + of_nat (Suc (Suc i)) \<noteq> 0" by simp
  moreover from e have "(0 :: u32) + of_nat (Suc (Suc i)) = 0" by (simp add: algebra_simps)
  ultimately show False by simp
qed

lemma pairs_shift:
  assumes "\<And>i. p (Suc i) = p1 i" "\<And>i. f (Suc i) = f1 i"
  shows "map f (filter p [0..<Suc k]) = (if p 0 then [f 0] else []) @ map f1 (filter p1 [0..<k])"
proof -
  have "filter p (map Suc [0..<k]) = map Suc (filter p1 [0..<k])"
    by (simp add: filter_map comp_def assms(1))
  then show ?thesis unfolding upt_Suc_shift by (simp add: comp_def assms(2))
qed

lemma lz77_copy_pairs:
  assumes "0 \<le> remaining"
    and "lz77_copy 2 n (s, disp, dest, remaining, halfword) = (s', disp', dest', remaining', halfword')"
    and "dest AND 1 \<noteq> 0 \<longrightarrow> halfword < 0x100"
    and "Suc n < 2 ^ 32"
  shows "(dest' AND 1 \<noteq> 0 \<longrightarrow> halfword' < 0x100)
       \<and> (\<forall>a. (\<forall>i<min n (nat remaining). a \<noteq> dest + of_nat i) \<longrightarrow>
              lz77_view 2 s' dest' halfword' a = lz77_view 2 s dest halfword a)
       \<and> stores s' = stores s
            @ map (\<lambda>i. Store16 (dest + of_nat i - 1)
                     (ucast (lz77_view 2 s' dest' halfword' (dest + of_nat i - 1))
                      OR push_bit 8 (ucast (lz77_view 2 s' dest' halfword' (dest + of_nat i)))))
                (filter (\<lambda>i. (dest + of_nat i) AND 1 \<noteq> 0) [0..<min n (nat remaining)])"
  using assms
proof (induction n arbitrary: s disp dest remaining halfword)
  case 0
  then show ?case by simp
next
  case (Suc n)
  show ?case
  proof (cases "remaining = 0")
    case True
    with Suc.prems(2,3) show ?thesis by simp
  next
    case False
    with Suc.prems(1) have pos: "0 < remaining" by simp
    define k where "k = min n (nat (remaining - 1))"
    have kk: "min (Suc n) (nat remaining) = Suc k" unfolding k_def using pos by (rule min_Suc_pos)
    have kn: "k \<le> n" unfolding k_def by simp
    define byte where "byte = loadU8 s disp"
    obtain s1 h1 where e: "emit_byte 2 s dest halfword byte = (s1, h1)"
      by (cases "emit_byte 2 s dest halfword byte")
    have b: "byte < 0x100" unfolding byte_def by (rule loadU8_byte)
    note ep = emit_byte_pair [OF Suc.prems(3) e b]
    from Suc.prems(2) False e
    have c: "lz77_copy 2 n (s1, disp + 1, dest + 1, remaining - 1, h1)
               = (s', disp', dest', remaining', halfword')"
      by (simp add: Let_def byte_def)
    have r1: "0 \<le> remaining - 1" using pos by simp
    have n32: "Suc n < 2 ^ 32" using Suc.prems(4) by simp
    note IH = Suc.IH [OF r1 c ep(2) n32, folded k_def]
    define V' where "V' = lz77_view 2 s' dest' halfword'"
    define V where "V = lz77_view 2 s dest halfword"
    from IH have H: "dest' AND 1 \<noteq> 0 \<longrightarrow> halfword' < 0x100" by (rule conjunct1)
    from IH have F1: "\<forall>a. (\<forall>i<k. a \<noteq> dest + 1 + of_nat i) \<longrightarrow> V' a = (V(dest := ucast byte)) a"
      unfolding V'_def V_def ep(1) by (rule conjunct2 [THEN conjunct1])
    from IH have S1: "stores s' = stores s1
            @ map (\<lambda>i. Store16 (dest + 1 + of_nat i - 1)
                     (ucast (V' (dest + 1 + of_nat i - 1)) OR push_bit 8 (ucast (V' (dest + 1 + of_nat i)))))
                (filter (\<lambda>i. (dest + 1 + of_nat i) AND 1 \<noteq> 0) [0..<k])"
      unfolding V'_def by (rule conjunct2 [THEN conjunct2])
    have d0: "\<forall>i<k. dest \<noteq> dest + 1 + of_nat i"
    proof (intro allI impI)
      fix i assume "i < k"
      with kn n32 have "Suc i < 2 ^ 32" by linarith
      then show "dest \<noteq> dest + 1 + of_nat i" by (rule no_wrap_dest)
    qed
    have d1: "\<forall>i<k. dest - 1 \<noteq> dest + 1 + of_nat i"
    proof (intro allI impI)
      fix i assume "i < k"
      with kn Suc.prems(4) have "Suc (Suc i) < 2 ^ 32" by linarith
      then show "dest - 1 \<noteq> dest + 1 + of_nat i" by (rule no_wrap_below)
    qed
    from F1 d0 have v0: "V' dest = ucast byte" by simp
    from F1 d1 have "V' (dest - 1) = (V(dest := ucast byte)) (dest - 1)" by blast
    then have v1: "V' (dest - 1) = V (dest - 1)" by simp
    have F: "\<forall>a. (\<forall>i<Suc k. a \<noteq> dest + of_nat i) \<longrightarrow> V' a = V a"
    proof (intro allI impI)
      fix a assume a: "\<forall>i<Suc k. a \<noteq> dest + of_nat i"
      from a [rule_format, of 0] have a0: "a \<noteq> dest" by simp
      have "\<forall>i<k. a \<noteq> dest + 1 + of_nat i"
      proof (intro allI impI)
        fix i assume "i < k"
        then have "Suc i < Suc k" by simp
        from a [rule_format, OF this] show "a \<noteq> dest + 1 + of_nat i" by (simp add: add.assoc)
      qed
      with F1 have "V' a = (V(dest := ucast byte)) a" by blast
      with a0 show "V' a = V a" by simp
    qed
    let ?f = "\<lambda>i. Store16 (dest + of_nat i - 1)
                     (ucast (V' (dest + of_nat i - 1)) OR push_bit 8 (ucast (V' (dest + of_nat i))))"
    let ?p = "\<lambda>i. (dest + of_nat i) AND 1 \<noteq> 0"
    let ?f1 = "\<lambda>i. Store16 (dest + 1 + of_nat i - 1)
                     (ucast (V' (dest + 1 + of_nat i - 1)) OR push_bit 8 (ucast (V' (dest + 1 + of_nat i))))"
    let ?p1 = "\<lambda>i. (dest + 1 + of_nat i) AND 1 \<noteq> 0"
    have sh: "map ?f (filter ?p [0..<Suc k]) = (if ?p 0 then [?f 0] else []) @ map ?f1 (filter ?p1 [0..<k])"
      by (rule pairs_shift) (simp_all add: add.assoc)
    have first: "stores s1 = stores s @ (if ?p 0 then [?f 0] else [])"
    proof (cases "dest AND 1 \<noteq> 0")
      case True
      then have "V (dest - 1) = ucast halfword" unfolding V_def lz77_view_def by simp
      with v1 have "V' (dest - 1) = ucast halfword" by simp
      with True v0 ep(3) show ?thesis by simp
    next
      case False
      with ep(3) show ?thesis by simp
    qed
    have S: "stores s' = stores s @ map ?f (filter ?p [0..<Suc k])"
      unfolding sh S1 first by simp
    show ?thesis
      unfolding kk using H F S unfolding V'_def V_def by (intro conjI)
  qed
qed

lemma lz77_view_other: "a \<noteq> dest - 1 \<Longrightarrow> lz77_view width s dest halfword a = mem s a"
  by (simp add: lz77_view_def)

lemma lz77_copy_simulates:
  assumes "0 \<le> remaining"
    and "lz77_copy 2 n (s, disp, dest, remaining, halfword) = (s', disp', dest', remaining', halfword')"
    and "dest AND 1 \<noteq> 0 \<longrightarrow> halfword < 0x100"
    and "disp + 1 \<noteq> dest"
    and "mem t = lz77_view 2 s dest halfword"
    and "lz77_copy 1 n (t, disp, dest, remaining, hx) = (t', dispx, destx, remainingx, hx')"
  shows "mem t' = lz77_view 2 s' dest' halfword'"
  using assms
proof (induction n arbitrary: s t disp dest remaining halfword hx)
  case 0
  then show ?case by simp
next
  case (Suc n)
  show ?case
  proof (cases "remaining = 0")
    case True
    with Suc.prems(2,5,6) show ?thesis by simp
  next
    case False
    with Suc.prems(1) have pos: "0 < remaining" by simp
    define byte where "byte = loadU8 s disp"
    have "disp \<noteq> dest - 1" using Suc.prems(4) by auto
    then have "mem t disp = mem s disp" unfolding Suc.prems(5) by (rule lz77_view_other)
    then have bt: "loadU8 t disp = byte" unfolding byte_def loadU8_def by simp
    obtain s1 h1 where e: "emit_byte 2 s dest halfword byte = (s1, h1)"
      by (cases "emit_byte 2 s dest halfword byte")
    have b: "byte < 0x100" unfolding byte_def by (rule loadU8_byte)
    note ep = emit_byte_pair [OF Suc.prems(3) e b]
    from Suc.prems(2) False e
    have c2: "lz77_copy 2 n (s1, disp + 1, dest + 1, remaining - 1, h1)
               = (s', disp', dest', remaining', halfword')"
      by (simp add: Let_def byte_def)
    define t1 where "t1 = store8 t dest byte"
    from Suc.prems(6) False
    have c1: "lz77_copy 1 n (t1, disp + 1, dest + 1, remaining - 1, hx)
               = (t', dispx, destx, remainingx, hx')"
      by (simp add: Let_def bt emit_byte_def t1_def)
    have m1: "mem t1 = lz77_view 2 s1 (dest + 1) h1"
      unfolding ep(1) t1_def mem_store8 Suc.prems(5) ..
    have r1: "0 \<le> remaining - 1" using pos by simp
    have d: "disp + 1 + 1 \<noteq> dest + 1" using Suc.prems(4) unfolding add_right_cancel .
    show ?thesis by (rule Suc.IH [OF r1 c2 ep(2) d m1 c1])
  qed
qed

lemma lz77_copy_stale:
  assumes "0 \<le> remaining"
    and "lz77_copy 2 n (s, disp, dest, remaining, halfword) = (s', disp', dest', remaining', halfword')"
    and "dest AND 1 \<noteq> 0 \<longrightarrow> halfword < 0x100"
    and "disp + 1 = dest"
    and "Suc n < 2 ^ 32"
  shows "\<forall>i<min n (nat remaining).
           lz77_view 2 s' dest' halfword' (dest + of_nat i) =
             (if i = 0 \<or> (dest + of_nat i) AND 1 \<noteq> 0 then mem s (dest + of_nat i - 1)
              else lz77_view 2 s' dest' halfword' (dest + of_nat i - 1))"
  using assms
proof (induction n arbitrary: s disp dest remaining halfword)
  case 0
  then show ?case by simp
next
  case (Suc n)
  show ?case
  proof (cases "remaining = 0")
    case True
    then show ?thesis by simp
  next
    case False
    with Suc.prems(1) have pos: "0 < remaining" by simp
    define k where "k = min n (nat (remaining - 1))"
    have kk: "min (Suc n) (nat remaining) = Suc k" unfolding k_def using pos by (rule min_Suc_pos)
    have kn: "k \<le> n" unfolding k_def by simp
    define byte where "byte = loadU8 s disp"
    have dd: "disp = dest - 1" using Suc.prems(4) by auto
    obtain s1 h1 where e: "emit_byte 2 s dest halfword byte = (s1, h1)"
      by (cases "emit_byte 2 s dest halfword byte")
    have b: "byte < 0x100" unfolding byte_def by (rule loadU8_byte)
    have ub: "(ucast byte :: u8) = mem s (dest - 1)" unfolding byte_def loadU8_def dd by simp
    note ep = emit_byte_pair [OF Suc.prems(3) e b]
    from Suc.prems(2) False e
    have c: "lz77_copy 2 n (s1, disp + 1, dest + 1, remaining - 1, h1)
               = (s', disp', dest', remaining', halfword')"
      by (simp add: Let_def byte_def)
    have r1: "0 \<le> remaining - 1" using pos by simp
    have n32: "Suc n < 2 ^ 32" using Suc.prems(5) by simp
    have d: "disp + 1 + 1 = dest + 1" using Suc.prems(4) by simp
    define V' where "V' = lz77_view 2 s' dest' halfword'"
    define V where "V = lz77_view 2 s dest halfword"
    note IH = Suc.IH [OF r1 c ep(2) d n32, folded k_def V'_def]
    note P = lz77_copy_pairs [OF r1 c ep(2) n32, folded k_def V'_def, unfolded ep(1), folded V_def]
    from P have F1: "\<forall>a. (\<forall>i<k. a \<noteq> dest + 1 + of_nat i) \<longrightarrow> V' a = (V(dest := ucast byte)) a"
      by (rule conjunct2 [THEN conjunct1])
    have d0: "\<forall>i<k. dest \<noteq> dest + 1 + of_nat i"
    proof (intro allI impI)
      fix i assume "i < k"
      with kn n32 have "Suc i < 2 ^ 32" by linarith
      then show "dest \<noteq> dest + 1 + of_nat i" by (rule no_wrap_dest)
    qed
    from F1 d0 have "V' dest = ucast byte" by simp
    then have v0: "V' dest = mem s (dest - 1)" unfolding ub .
    have "\<forall>i<Suc k. V' (dest + of_nat i) =
             (if i = 0 \<or> (dest + of_nat i) AND 1 \<noteq> 0 then mem s (dest + of_nat i - 1)
              else V' (dest + of_nat i - 1))"
    proof (intro allI impI)
      fix i assume i: "i < Suc k"
      show "V' (dest + of_nat i) =
             (if i = 0 \<or> (dest + of_nat i) AND 1 \<noteq> 0 then mem s (dest + of_nat i - 1)
              else V' (dest + of_nat i - 1))"
      proof (cases i)
        case 0
        with v0 show ?thesis by simp
      next
        case (Suc j)
        with i have j: "j < k" by simp
        have a: "dest + of_nat (Suc j) = dest + 1 + of_nat j" by (simp add: add.assoc)
        have a1: "dest + 1 + of_nat j - 1 = dest + of_nat j" by simp
        from IH [rule_format, OF j]
        have ih: "V' (dest + 1 + of_nat j) =
             (if j = 0 \<or> (dest + 1 + of_nat j) AND 1 \<noteq> 0 then mem s1 (dest + of_nat j)
              else V' (dest + of_nat j))"
          unfolding a1 .
        show ?thesis
        proof (cases "(dest + 1 + of_nat j) AND 1 \<noteq> 0")
          case True
          have "mem s1 (dest + of_nat j) = mem s (dest + of_nat j)"
          proof (cases "dest AND 1 \<noteq> 0")
            case False
            with ep(5) show ?thesis by simp
          next
            case o: True
            have "j \<noteq> 0"
            proof
              assume "j = 0"
              with True have "(dest + 1) AND 1 \<noteq> 0" by simp
              with o show False by (simp add: odd_Suc_word)
            qed
            then obtain j' where j': "j = Suc j'" by (cases j) auto
            from j j' kn n32 have "Suc j' < 2 ^ 32" "Suc (Suc j') < 2 ^ 32" by linarith+
            from no_wrap_dest [OF this(1), of dest] no_wrap_below [OF this(2), of dest]
            have "dest + of_nat j \<noteq> dest" "dest + of_nat j \<noteq> dest - 1"
              unfolding j' by (simp_all add: add.assoc)
            with ep(4) show ?thesis by simp
          qed
          with ih True show ?thesis unfolding Suc a a1 by simp
        next
          case False
          show ?thesis
          proof (cases "j = 0")
            case j0: True
            from False j0 have "(dest + 1) AND 1 = 0" by simp
            then have o: "dest AND 1 \<noteq> 0" using odd_Suc_word [of dest] by blast
            have "lz77_view 2 s1 (dest + 1) h1 = mem s1"
              using \<open>(dest + 1) AND 1 = 0\<close> by (simp add: lz77_view_def)
            with ep(1) have "mem s1 dest = ucast byte" by simp
            with ih j0 \<open>V' dest = ucast byte\<close> False show ?thesis unfolding Suc a a1 by simp
          next
            case jn: False
            with ih False show ?thesis unfolding Suc a a1 by simp
          qed
        qed
      qed
    qed
    then show ?thesis unfolding kk V'_def .
  qed
qed

lemma overlap_periodic:
  fixes m' m :: "u32 \<Rightarrow> u8"
  assumes A: "\<forall>i<count. m' (dest + of_nat i) = m' (dest - displacement - 1 + of_nat i)"
    and B: "\<forall>a. (\<forall>i<count. a \<noteq> dest + of_nat i) \<longrightarrow> m' a = m a"
    and D: "unat displacement < 4096" and C: "count \<le> 18"
  shows "\<forall>i<count. m' (dest + of_nat i) =
                (if i \<le> unat displacement then m (dest - displacement - 1 + of_nat i)
                 else m' (dest + of_nat (i - unat displacement - 1)))"
proof (intro allI impI)
  fix i assume i: "i < count"
  with A have a: "m' (dest + of_nat i) = m' (dest - displacement - 1 + of_nat i)"
    by blast
  show "m' (dest + of_nat i) =
                (if i \<le> unat displacement then m (dest - displacement - 1 + of_nat i)
                 else m' (dest + of_nat (i - unat displacement - 1)))"
  proof (cases "i \<le> unat displacement")
    case True
    have "\<forall>j<count. dest - displacement - 1 + of_nat i \<noteq> dest + of_nat j"
    proof (intro allI impI)
      fix j assume "j < count"
      with C have "j < 18" by simp
      from back_no_wrap [OF D True this]
      show "dest - displacement - 1 + of_nat i \<noteq> dest + of_nat j" .
    qed
    with B have "m' (dest - displacement - 1 + of_nat i) = m (dest - displacement - 1 + of_nat i)"
      by blast
    with a True show ?thesis by simp
  next
    case False
    then have "unat displacement < i" by simp
    from back_own [OF this, of dest]
    have "m' (dest - displacement - 1 + of_nat i) = m' (dest + of_nat (i - unat displacement - 1))"
      by (rule arg_cong)
    with a have "m' (dest + of_nat i) = m' (dest + of_nat (i - unat displacement - 1))"
      by (rule trans)
    with False show ?thesis by (simp only: if_False)
  qed
qed

lemma cursor_facts:
  assumes D: "unat (displacement :: u32) < 4096" and L: "len \<le> (18 :: nat)"
  shows "dest - displacement - 1 \<noteq> dest"
    and "unat (dest - (dest - displacement - 1)) + len < 2 ^ 32"
    and "displacement \<noteq> 0 \<Longrightarrow> dest - displacement - 1 + 1 \<noteq> dest"
    and "displacement = 0 \<Longrightarrow> dest - displacement - 1 + 1 = dest"
proof -
  show "dest - displacement - 1 \<noteq> dest"
    using back_no_wrap [OF D, of 0 0 dest] by simp
  have "dest - (dest - displacement - 1) = displacement + 1" by simp
  moreover have "unat (displacement + 1) \<le> unat displacement + 1"
    by (simp add: unat_word_ariths)
  ultimately show "unat (dest - (dest - displacement - 1)) + len < 2 ^ 32"
    using D L by simp
  show "dest - displacement - 1 + 1 \<noteq> dest" if "displacement \<noteq> 0"
    using that by simp
  show "dest - displacement - 1 + 1 = dest" if "displacement = 0"
    using that by simp
qed

lemma lz77_chunk_bytes:
  assumes w: "width \<noteq> 2" and r: "0 \<le> remaining"
    and cp: "lz77_copy width len (s, dest - displacement - 1, dest, remaining, halfword)
           = (s', disp', dest', remaining', halfword')"
    and D: "unat displacement < 4096" and L: "len \<le> 18"
    and c: "count = min len (nat remaining)"
  shows "stores s' = stores s
               @ map (\<lambda>i. Store8 (dest + of_nat i) (mem s' (dest + of_nat i))) [0..<count]
          \<and> (\<forall>i<count. mem s' (dest + of_nat i) =
                (if i \<le> unat displacement then mem s (dest - displacement - 1 + of_nat i)
                 else mem s' (dest + of_nat (i - unat displacement - 1))))
          \<and> (\<forall>a. (\<forall>i<count. a \<noteq> dest + of_nat i) \<longrightarrow> mem s' a = mem s a)"
proof -
  have C: "count \<le> 18" using L unfolding c by simp
  note f = cursor_facts [OF D L, of dest]
  note o = lz77_copy_overlap [OF w r cp f(1) f(2), folded c]
  from o have A: "\<forall>i<count. mem s' (dest + of_nat i) = mem s' (dest - displacement - 1 + of_nat i)"
    by (rule conjunct1)
  from o have B: "\<forall>a. (\<forall>i<count. a \<noteq> dest + of_nat i) \<longrightarrow> mem s' a = mem s a"
    by (rule conjunct2 [THEN conjunct1])
  from o have S: "stores s' = stores s
               @ map (\<lambda>i. Store8 (dest + of_nat i) (mem s' (dest + of_nat i))) [0..<count]"
    by (rule conjunct2 [THEN conjunct2])
  from S overlap_periodic [OF A B D C] B show ?thesis by (intro conjI)
qed

lemma lz77_chunk_pairs:
  assumes r: "0 \<le> remaining"
    and cp: "lz77_copy 2 len (s, dest - displacement - 1, dest, remaining, halfword)
           = (s', disp', dest', remaining', halfword')"
    and h: "dest AND 1 \<noteq> 0 \<longrightarrow> halfword < 0x100"
    and D: "unat displacement < 4096" and L: "len \<le> 18"
    and c: "count = min len (nat remaining)"
  shows "(dest' AND 1 \<noteq> 0 \<longrightarrow> halfword' < 0x100)
       \<and> stores s' = stores s
            @ map (\<lambda>i. Store16 (dest + of_nat i - 1)
                     (ucast (lz77_view 2 s' dest' halfword' (dest + of_nat i - 1))
                      OR push_bit 8 (ucast (lz77_view 2 s' dest' halfword' (dest + of_nat i)))))
                (filter (\<lambda>i. (dest + of_nat i) AND 1 \<noteq> 0) [0..<count])
       \<and> (\<forall>a. (\<forall>i<count. a \<noteq> dest + of_nat i) \<longrightarrow>
              lz77_view 2 s' dest' halfword' a = lz77_view 2 s dest halfword a)
       \<and> (displacement \<noteq> 0 \<longrightarrow>
            (\<forall>i<count. lz77_view 2 s' dest' halfword' (dest + of_nat i) =
                (if i \<le> unat displacement
                 then lz77_view 2 s dest halfword (dest - displacement - 1 + of_nat i)
                 else lz77_view 2 s' dest' halfword' (dest + of_nat (i - unat displacement - 1)))))
       \<and> (displacement = 0 \<longrightarrow>
            (\<forall>i<count. lz77_view 2 s' dest' halfword' (dest + of_nat i) =
                (if i = 0 \<or> (dest + of_nat i) AND 1 \<noteq> 0 then mem s (dest + of_nat i - 1)
                 else lz77_view 2 s' dest' halfword' (dest + of_nat i - 1))))"
proof -
  have C: "count \<le> 18" using L unfolding c by simp
  have n32: "Suc len < 2 ^ 32" using L by simp
  note f = cursor_facts [OF D L, of dest]
  note P = lz77_copy_pairs [OF r cp h n32, folded c]
  from P have H: "dest' AND 1 \<noteq> 0 \<longrightarrow> halfword' < 0x100" by (rule conjunct1)
  from P have F: "\<forall>a. (\<forall>i<count. a \<noteq> dest + of_nat i) \<longrightarrow>
              lz77_view 2 s' dest' halfword' a = lz77_view 2 s dest halfword a"
    by (rule conjunct2 [THEN conjunct1])
  from P have S: "stores s' = stores s
            @ map (\<lambda>i. Store16 (dest + of_nat i - 1)
                     (ucast (lz77_view 2 s' dest' halfword' (dest + of_nat i - 1))
                      OR push_bit 8 (ucast (lz77_view 2 s' dest' halfword' (dest + of_nat i)))))
                (filter (\<lambda>i. (dest + of_nat i) AND 1 \<noteq> 0) [0..<count])"
    by (rule conjunct2 [THEN conjunct2])
  have N: "\<forall>i<count. lz77_view 2 s' dest' halfword' (dest + of_nat i) =
                (if i \<le> unat displacement
                 then lz77_view 2 s dest halfword (dest - displacement - 1 + of_nat i)
                 else lz77_view 2 s' dest' halfword' (dest + of_nat (i - unat displacement - 1)))"
    if nz: "displacement \<noteq> 0"
  proof -
    define t where "t = s\<lparr>mem := lz77_view 2 s dest halfword\<rparr>"
    have mt: "mem t = lz77_view 2 s dest halfword" unfolding t_def by simp
    obtain t' dispx destx remainingx hx' where
      c1: "lz77_copy 1 len (t, dest - displacement - 1, dest, remaining, halfword)
             = (t', dispx, destx, remainingx, hx')"
      by (cases "lz77_copy 1 len (t, dest - displacement - 1, dest, remaining, halfword)")
    have w1: "(1::int) \<noteq> 2" by simp
    note o = lz77_copy_overlap [OF w1 r c1 f(1) f(2), folded c, unfolded mt]
    have m': "mem t' = lz77_view 2 s' dest' halfword'"
      by (rule lz77_copy_simulates [OF r cp h f(3) [OF nz] mt c1])
    from o have A: "\<forall>i<count. lz77_view 2 s' dest' halfword' (dest + of_nat i)
                      = lz77_view 2 s' dest' halfword' (dest - displacement - 1 + of_nat i)"
      unfolding m' by (rule conjunct1)
    show ?thesis by (rule overlap_periodic [OF A F D C])
  qed
  have Z: "\<forall>i<count. lz77_view 2 s' dest' halfword' (dest + of_nat i) =
                (if i = 0 \<or> (dest + of_nat i) AND 1 \<noteq> 0 then mem s (dest + of_nat i - 1)
                 else lz77_view 2 s' dest' halfword' (dest + of_nat i - 1))"
    if z: "displacement = 0"
    using lz77_copy_stale [OF r cp h f(4) [OF z] n32, folded c] .
  have N': "displacement \<noteq> 0 \<longrightarrow>
            (\<forall>i<count. lz77_view 2 s' dest' halfword' (dest + of_nat i) =
                (if i \<le> unat displacement
                 then lz77_view 2 s dest halfword (dest - displacement - 1 + of_nat i)
                 else lz77_view 2 s' dest' halfword' (dest + of_nat (i - unat displacement - 1))))"
    by (rule impI) (rule N)
  have Z': "displacement = 0 \<longrightarrow>
            (\<forall>i<count. lz77_view 2 s' dest' halfword' (dest + of_nat i) =
                (if i = 0 \<or> (dest + of_nat i) AND 1 \<noteq> 0 then mem s (dest + of_nat i - 1)
                 else lz77_view 2 s' dest' halfword' (dest + of_nat i - 1)))"
    by (rule impI) (rule Z)
  from H S F N' Z' show ?thesis by (intro conjI)
qed

text \<open>A stream with one overlapping chunk, and two compressed chunks on their own.\<close>

definition lz_overlap_example :: gba where
  "lz_overlap_example = gba0\<lparr>gprs := (\<lambda>r. 0)(0 := 0x02000000, 1 := 0x03000000),
      mem := (bytes_at 0x02000000 [0x10, 0x02, 0, 0, 0x80, 0x00, 0x00])
               (0x02FFFFFF := 0xAA, 0x03000000 := 0x55)\<rparr>"

definition lz_chunk_example :: gba where
  "lz_chunk_example = gba0\<lparr>mem := (bytes_at 0x02000005 [0x10, 0x00])(0x02FFFFFF := 0xAA)\<rparr>"

definition lz_pair_example :: gba where
  "lz_pair_example = gba0\<lparr>mem := (bytes_at 0x02000005 [0x10, 0x01])
                                   (0x02FFFFFE := 0xAA, 0x02FFFFFF := 0xBB)\<rparr>"

text \<open>
  C3, as the claim states it, fails for the 16-bit variant (\<^verbatim>\<open>width == 2\<close>, SWI 0x12):
  there a byte produced at an even destination waits in \<^verbatim>\<open>halfword\<close> and reaches
  memory only with the next byte, so a back-reference with displacement 0 does not read
  it.  The stream declares 2 bytes and holds one compressed chunk \<open>00 00\<close>
  (displacement 0, length 3); the byte before the destination is \<open>0xAA\<close> and the
  destination holds \<open>0x55\<close>.  With width 1 the output is \<open>AA AA\<close>: the second byte is
  the first byte of the chunk.  With width 2 the output is \<open>AA 55\<close>: the second byte is
  what the destination held before the call.
\<close>

theorem lz77_overlap_counterexample:
  "mem lz_overlap_example 0x02FFFFFF = 0xAA \<and> mem lz_overlap_example 0x03000000 = 0x55
   \<and> stores (unLz77 0 lz_overlap_example 2) = [Store16 0x03000000 0x55AA]
   \<and> mem (unLz77 0 lz_overlap_example 2) 0x03000000 = 0xAA
   \<and> mem (unLz77 0 lz_overlap_example 2) 0x03000001 = 0x55
   \<and> stores (unLz77 0 lz_overlap_example 1) = [Store8 0x03000000 0xAA, Store8 0x03000001 0xAA]"
  by code_simp

lemma lz77_step_compressed:
  assumes "blocksRemaining \<noteq> 0" "blockheader AND 0x80 \<noteq> 0"
    and "mem s source = b0" "mem s (source + 1) = b1"
  shows "lz77_step width (s, source, dest, remaining, blockheader, blocksRemaining, halfword)
     = (case lz77_copy width (unat (drop_bit 4 b0) + 3)
               (s, dest - (push_bit 8 (ucast (b0 AND 0x0F)) OR ucast b1) - 1, dest, remaining, halfword)
        of (s', disp', dest', remaining', halfword') \<Rightarrow>
          (s', source + 2, dest', remaining', push_bit 1 blockheader, blocksRemaining - 1, halfword'))"
  using assms(1,2) unfolding assms(3,4) [symmetric]
  by (simp add: Let_def lz77_block_fields del: lz77_copy.simps)

lemma lz77_length_le: "unat (drop_bit 4 (b0 :: u8)) + 3 \<le> 18"
proof -
  have "unat b0 < 2 ^ 8" using unsigned_less [of b0] by simp
  then have "unat b0 div 16 < 16" by simp
  then have "unat (drop_bit 4 b0) \<le> 15" by (simp add: drop_bit_eq_div unat_div)
  then show ?thesis by simp
qed

lemma lz77_step_holds_byte:
  assumes "0 \<le> remaining" "dest AND 1 \<noteq> 0 \<longrightarrow> halfword < 0x100"
    and st: "lz77_step 2 (s, source, dest, remaining, blockheader, blocksRemaining, halfword)
               = (s', source', dest', remaining', blockheader', blocksRemaining', halfword')"
  shows "dest' AND 1 \<noteq> 0 \<longrightarrow> halfword' < 0x100"
proof (cases "blocksRemaining = 0")
  case True
  with st assms(2) show ?thesis by simp
next
  case br: False
  show ?thesis
  proof (cases "blockheader AND 0x80 \<noteq> 0")
    case True
    define b0 where "b0 = mem s source"
    define b1 where "b1 = mem s (source + 1)"
    define displacement :: u32 where "displacement = push_bit 8 (ucast (b0 AND 0x0F)) OR ucast b1"
    define len where "len = unat (drop_bit 4 b0) + 3"
    obtain s1 disp1 dest1 remaining1 halfword1 where
      cp: "lz77_copy 2 len (s, dest - displacement - 1, dest, remaining, halfword)
             = (s1, disp1, dest1, remaining1, halfword1)"
      by (cases "lz77_copy 2 len (s, dest - displacement - 1, dest, remaining, halfword)")
    from st have e: "dest' = dest1" "halfword' = halfword1"
      unfolding lz77_step_compressed [OF br True b0_def [symmetric] b1_def [symmetric]]
        displacement_def [symmetric] len_def [symmetric] cp by simp_all
    have "Suc len < 2 ^ 32" using lz77_length_le [of b0] unfolding len_def by simp
    from lz77_copy_pairs [OF assms(1) cp assms(2) this] show ?thesis unfolding e by blast
  next
    case False
    obtain s1 h1 where e: "emit_byte 2 s dest halfword (loadU8 s source) = (s1, h1)"
      by (cases "emit_byte 2 s dest halfword (loadU8 s source)")
    from st br False e have "dest' = dest + 1" "halfword' = h1" by (simp_all add: Let_def)
    with emit_byte_pair(2) [OF assms(2) e loadU8_byte] show ?thesis by simp
  qed
qed

text \<open>
  C3, amended.  In an iteration of the main loop that decodes a compressed chunk
  (\<^verbatim>\<open>blocksRemaining\<close> nonzero and bit 7 of \<^verbatim>\<open>blockheader\<close> set) whose two source
  bytes are \<open>b0\<close> then \<open>b1\<close>, for every width, the displacement is
  \<open>((b0 & 0x0F) << 8) | b1\<close>, the copy length is \<open>(b0 >> 4) + 3\<close>, the copy loop
  starts with its read cursor at \<open>dest - displacement - 1\<close> and produces
  \<open>count\<close> bytes, the smaller of the copy length and \<^verbatim>\<open>remaining\<close>; the source
  advances by 2.

  For a width other than 2 the bytes are stored one at a time, each with
  an 8-bit store at the next destination address, and byte \<open>i\<close> of the chunk is the
  byte that memory held at the read cursor plus \<open>i\<close> before the chunk when
  \<open>i \<le> displacement\<close>, and byte \<open>i - displacement - 1\<close> of the same chunk
  otherwise; no other address changes.

  With width 2, when \<^verbatim>\<open>halfword\<close> holds one byte at an odd \<^verbatim>\<open>dest\<close> (as it does after
  every byte that the decoder has produced at an even one), it does so again after the
  chunk; there is one 16-bit store, at the even address below, for each byte produced at
  an odd destination, holding that byte and the one before it; and the output, with the
  byte that waits in \<^verbatim>\<open>halfword\<close> counted in, changes at the addresses of the chunk
  only.  When the displacement is not 0 the chunk reads its own output as with byte
  stores: byte \<open>i\<close> is the byte that the output held at the read cursor plus \<open>i\<close>
  before the chunk when \<open>i \<le> displacement\<close>, and byte \<open>i - displacement - 1\<close> of
  the same chunk otherwise.  When the displacement is 0 it does not: the first byte,
  and every byte produced at an odd destination, is the byte that memory held just
  below its address before the chunk, because the byte produced there has not been
  stored yet; a byte produced at an even destination is the byte before it.
\<close>

theorem lz77_compressed_chunk:
  assumes "blocksRemaining \<noteq> 0" "blockheader AND 0x80 \<noteq> 0" "0 \<le> remaining"
    and b: "mem s source = b0" "mem s (source + 1) = b1"
    and d: "displacement = push_bit 8 (ucast (b0 AND 0x0F)) OR ucast b1"
    and l: "len = unat (drop_bit 4 b0) + 3"
    and c: "count = min len (nat remaining)"
    and st: "lz77_step width (s, source, dest, remaining, blockheader, blocksRemaining, halfword)
               = (s', source', dest', remaining', blockheader', blocksRemaining', halfword')"
  shows "lz77_copy width len (s, dest - displacement - 1, dest, remaining, halfword)
           = (s', dest - displacement - 1 + of_nat count, dest', remaining', halfword')
       \<and> source' = source + 2 \<and> dest' = dest + of_nat count \<and> remaining' = remaining - int count
       \<and> blockheader' = push_bit 1 blockheader \<and> blocksRemaining' = blocksRemaining - 1
       \<and> (width \<noteq> 2 \<longrightarrow>
            stores s' = stores s
               @ map (\<lambda>i. Store8 (dest + of_nat i) (mem s' (dest + of_nat i))) [0..<count]
          \<and> (\<forall>i<count. mem s' (dest + of_nat i) =
                (if i \<le> unat displacement then mem s (dest - displacement - 1 + of_nat i)
                 else mem s' (dest + of_nat (i - unat displacement - 1))))
          \<and> (\<forall>a. (\<forall>i<count. a \<noteq> dest + of_nat i) \<longrightarrow> mem s' a = mem s a))
       \<and> (width = 2 \<and> (dest AND 1 \<noteq> 0 \<longrightarrow> halfword < 0x100) \<longrightarrow>
            (dest' AND 1 \<noteq> 0 \<longrightarrow> halfword' < 0x100)
          \<and> stores s' = stores s
               @ map (\<lambda>i. Store16 (dest + of_nat i - 1)
                        (ucast (lz77_view 2 s' dest' halfword' (dest + of_nat i - 1))
                         OR push_bit 8 (ucast (lz77_view 2 s' dest' halfword' (dest + of_nat i)))))
                   (filter (\<lambda>i. (dest + of_nat i) AND 1 \<noteq> 0) [0..<count])
          \<and> (\<forall>a. (\<forall>i<count. a \<noteq> dest + of_nat i) \<longrightarrow>
                 lz77_view 2 s' dest' halfword' a = lz77_view 2 s dest halfword a)
          \<and> (displacement \<noteq> 0 \<longrightarrow>
               (\<forall>i<count. lz77_view 2 s' dest' halfword' (dest + of_nat i) =
                   (if i \<le> unat displacement
                    then lz77_view 2 s dest halfword (dest - displacement - 1 + of_nat i)
                    else lz77_view 2 s' dest' halfword' (dest + of_nat (i - unat displacement - 1)))))
          \<and> (displacement = 0 \<longrightarrow>
               (\<forall>i<count. lz77_view 2 s' dest' halfword' (dest + of_nat i) =
                   (if i = 0 \<or> (dest + of_nat i) AND 1 \<noteq> 0 then mem s (dest + of_nat i - 1)
                    else lz77_view 2 s' dest' halfword' (dest + of_nat i - 1)))))"
proof -
  obtain s1 disp1 dest1 remaining1 halfword1 where
    cp: "lz77_copy width len (s, dest - displacement - 1, dest, remaining, halfword)
           = (s1, disp1, dest1, remaining1, halfword1)"
    by (cases "lz77_copy width len (s, dest - displacement - 1, dest, remaining, halfword)")
  from st have e: "s' = s1" "source' = source + 2" "dest' = dest1" "remaining' = remaining1"
      "blockheader' = push_bit 1 blockheader" "blocksRemaining' = blocksRemaining - 1"
      "halfword' = halfword1"
    unfolding lz77_step_compressed [OF assms(1,2) b] d [symmetric] l [symmetric] cp by simp_all
  from lz77_copy_cursors [OF assms(3) cp]
  have cur: "disp1 = dest - displacement - 1 + of_nat count" "dest1 = dest + of_nat count"
    "remaining1 = remaining - int count"
    unfolding c by simp_all
  have D: "unat displacement < 4096" unfolding d by (rule lz77_disp_less)
  have L: "len \<le> 18" unfolding l by (rule lz77_length_le)
  have cp': "lz77_copy width len (s, dest - displacement - 1, dest, remaining, halfword)
           = (s', disp1, dest', remaining', halfword')"
    unfolding cp e ..
  have bytes: "width \<noteq> 2 \<longrightarrow>
            stores s' = stores s
               @ map (\<lambda>i. Store8 (dest + of_nat i) (mem s' (dest + of_nat i))) [0..<count]
          \<and> (\<forall>i<count. mem s' (dest + of_nat i) =
                (if i \<le> unat displacement then mem s (dest - displacement - 1 + of_nat i)
                 else mem s' (dest + of_nat (i - unat displacement - 1))))
          \<and> (\<forall>a. (\<forall>i<count. a \<noteq> dest + of_nat i) \<longrightarrow> mem s' a = mem s a)"
  proof
    assume w: "width \<noteq> 2"
    show "stores s' = stores s
               @ map (\<lambda>i. Store8 (dest + of_nat i) (mem s' (dest + of_nat i))) [0..<count]
          \<and> (\<forall>i<count. mem s' (dest + of_nat i) =
                (if i \<le> unat displacement then mem s (dest - displacement - 1 + of_nat i)
                 else mem s' (dest + of_nat (i - unat displacement - 1))))
          \<and> (\<forall>a. (\<forall>i<count. a \<noteq> dest + of_nat i) \<longrightarrow> mem s' a = mem s a)"
      by (rule lz77_chunk_bytes [OF w assms(3) cp' D L c])
  qed
  have pairs: "width = 2 \<and> (dest AND 1 \<noteq> 0 \<longrightarrow> halfword < 0x100) \<longrightarrow>
            (dest' AND 1 \<noteq> 0 \<longrightarrow> halfword' < 0x100)
          \<and> stores s' = stores s
               @ map (\<lambda>i. Store16 (dest + of_nat i - 1)
                        (ucast (lz77_view 2 s' dest' halfword' (dest + of_nat i - 1))
                         OR push_bit 8 (ucast (lz77_view 2 s' dest' halfword' (dest + of_nat i)))))
                   (filter (\<lambda>i. (dest + of_nat i) AND 1 \<noteq> 0) [0..<count])
          \<and> (\<forall>a. (\<forall>i<count. a \<noteq> dest + of_nat i) \<longrightarrow>
                 lz77_view 2 s' dest' halfword' a = lz77_view 2 s dest halfword a)
          \<and> (displacement \<noteq> 0 \<longrightarrow>
               (\<forall>i<count. lz77_view 2 s' dest' halfword' (dest + of_nat i) =
                   (if i \<le> unat displacement
                    then lz77_view 2 s dest halfword (dest - displacement - 1 + of_nat i)
                    else lz77_view 2 s' dest' halfword' (dest + of_nat (i - unat displacement - 1)))))
          \<and> (displacement = 0 \<longrightarrow>
               (\<forall>i<count. lz77_view 2 s' dest' halfword' (dest + of_nat i) =
                   (if i = 0 \<or> (dest + of_nat i) AND 1 \<noteq> 0 then mem s (dest + of_nat i - 1)
                    else lz77_view 2 s' dest' halfword' (dest + of_nat i - 1))))"
  proof (rule impI, elim conjE)
    assume w: "width = 2" and h: "dest AND 1 \<noteq> 0 \<longrightarrow> halfword < 0x100"
    show "(dest' AND 1 \<noteq> 0 \<longrightarrow> halfword' < 0x100)
          \<and> stores s' = stores s
               @ map (\<lambda>i. Store16 (dest + of_nat i - 1)
                        (ucast (lz77_view 2 s' dest' halfword' (dest + of_nat i - 1))
                         OR push_bit 8 (ucast (lz77_view 2 s' dest' halfword' (dest + of_nat i)))))
                   (filter (\<lambda>i. (dest + of_nat i) AND 1 \<noteq> 0) [0..<count])
          \<and> (\<forall>a. (\<forall>i<count. a \<noteq> dest + of_nat i) \<longrightarrow>
                 lz77_view 2 s' dest' halfword' a = lz77_view 2 s dest halfword a)
          \<and> (displacement \<noteq> 0 \<longrightarrow>
               (\<forall>i<count. lz77_view 2 s' dest' halfword' (dest + of_nat i) =
                   (if i \<le> unat displacement
                    then lz77_view 2 s dest halfword (dest - displacement - 1 + of_nat i)
                    else lz77_view 2 s' dest' halfword' (dest + of_nat (i - unat displacement - 1)))))
          \<and> (displacement = 0 \<longrightarrow>
               (\<forall>i<count. lz77_view 2 s' dest' halfword' (dest + of_nat i) =
                   (if i = 0 \<or> (dest + of_nat i) AND 1 \<noteq> 0 then mem s (dest + of_nat i - 1)
                    else lz77_view 2 s' dest' halfword' (dest + of_nat i - 1))))"
      by (rule lz77_chunk_pairs [OF assms(3) cp' [unfolded w] h D L c])
  qed
  have first: "lz77_copy width len (s, dest - displacement - 1, dest, remaining, halfword)
           = (s', dest - displacement - 1 + of_nat count, dest', remaining', halfword')"
    unfolding cp e cur ..
  have cursors: "dest' = dest + of_nat count" "remaining' = remaining - int count"
    unfolding e cur by (rule refl)+
  from first e(2) cursors e(5,6) bytes pairs show ?thesis by (intro conjI)
qed

lemma lz_chunk_example_facts:
  "mem lz_chunk_example 0x02000005 = 0x10" "mem lz_chunk_example (0x02000005 + 1) = 0"
  "mem lz_chunk_example 0x02FFFFFF = 0xAA" "stores lz_chunk_example = []"
  by (simp_all add: lz_chunk_example_def gba0_def bytes_at_def)

lemma lz_pair_example_facts:
  "mem lz_pair_example 0x02000005 = 0x10" "mem lz_pair_example (0x02000005 + 1) = 1"
  "mem lz_pair_example 0x02FFFFFE = 0xAA" "mem lz_pair_example 0x02FFFFFF = 0xBB"
  "stores lz_pair_example = []"
  by (simp_all add: lz_pair_example_def gba0_def bytes_at_def)

theorem lz77_compressed_chunk_witness:
  "(8::int) \<noteq> 0 \<and> (0x80::u32) AND 0x80 \<noteq> 0 \<and> (0::int) \<le> 4 \<and> (1::int) \<noteq> 2
   \<and> mem lz_chunk_example 0x02000005 = 0x10 \<and> mem lz_chunk_example 0x02000006 = 0
   \<and> mem lz_chunk_example 0x02FFFFFF = 0xAA
   \<and> (\<exists>s' halfword'.
         lz77_step 1 (lz_chunk_example, 0x02000005, 0x03000000, 4, 0x80, 8, 0)
           = (s', 0x02000007, 0x03000004, 0, 0x100, 7, halfword')
       \<and> stores s' = [Store8 0x03000000 0xAA, Store8 0x03000001 0xAA,
                      Store8 0x03000002 0xAA, Store8 0x03000003 0xAA])
   \<and> mem lz_pair_example 0x02000005 = 0x10 \<and> mem lz_pair_example 0x02000006 = 1
   \<and> mem lz_pair_example 0x02FFFFFE = 0xAA \<and> mem lz_pair_example 0x02FFFFFF = 0xBB
   \<and> (\<exists>s' halfword'.
         lz77_step 2 (lz_pair_example, 0x02000005, 0x03000000, 4, 0x80, 8, 0)
           = (s', 0x02000007, 0x03000004, 0, 0x100, 7, halfword')
       \<and> stores s' = [Store16 0x03000000 0xBBAA, Store16 0x03000002 0xBBAA])"
proof -
  have h: "(8::int) \<noteq> 0" "(0x80::u32) AND 0x80 \<noteq> 0" "(0::int) \<le> 4" "(1::int) \<noteq> 2"
    by simp_all
  have u: "[0..<4] = [0, 1, 2, 3]" by (simp add: upt_rec)
  have one: "\<exists>s' halfword'.
         lz77_step 1 (lz_chunk_example, 0x02000005, 0x03000000, 4, 0x80, 8, 0)
           = (s', 0x02000007, 0x03000004, 0, 0x100, 7, halfword')
       \<and> stores s' = [Store8 0x03000000 0xAA, Store8 0x03000001 0xAA,
                      Store8 0x03000002 0xAA, Store8 0x03000003 0xAA]"
  proof -
    obtain s' source' dest' remaining' blockheader' blocksRemaining' halfword' where
      st: "lz77_step 1 (lz_chunk_example, 0x02000005, 0x03000000, 4, 0x80, 8, 0)
             = (s', source', dest', remaining', blockheader', blocksRemaining', halfword')"
      by (cases "lz77_step 1 (lz_chunk_example, 0x02000005, 0x03000000, 4, 0x80, 8, 0)")
    have dl: "(0::u32) = push_bit 8 (ucast ((0x10::u8) AND 0x0F)) OR ucast (0::u8)"
      "(4::nat) = unat (drop_bit 4 (0x10::u8)) + 3" "(4::nat) = min 4 (nat 4)"
      by simp_all
    note t = lz77_compressed_chunk [OF h(1,2,3) lz_chunk_example_facts(1,2) dl st]
    from t have r: "source' = 0x02000007" "dest' = 0x03000004" "remaining' = 0"
      "blockheader' = 0x100" "blocksRemaining' = 7"
      by simp_all
    from t h(4) have S: "stores s' = stores lz_chunk_example
                 @ map (\<lambda>i. Store8 (0x03000000 + of_nat i) (mem s' (0x03000000 + of_nat i))) [0..<4]"
      by blast
    from t h(4) have P: "\<forall>i<4. mem s' (0x03000000 + of_nat i) =
                  (if i \<le> unat (0::u32) then mem lz_chunk_example (0x03000000 - 0 - 1 + of_nat i)
                   else mem s' (0x03000000 + of_nat (i - unat (0::u32) - 1)))"
      by blast
    from P [rule_format, of 0] have m0: "mem s' 0x03000000 = 0xAA"
      by (simp add: lz_chunk_example_facts)
    from P [rule_format, of 1] m0 have m1: "mem s' 0x03000001 = 0xAA" by simp
    from P [rule_format, of 2] m1 have m2: "mem s' 0x03000002 = 0xAA" by simp
    from P [rule_format, of 3] m2 have m3: "mem s' 0x03000003 = 0xAA" by simp
    from S have "stores s' = [Store8 0x03000000 0xAA, Store8 0x03000001 0xAA,
                        Store8 0x03000002 0xAA, Store8 0x03000003 0xAA]"
      unfolding u by (simp add: lz_chunk_example_facts m0 m1 m2 m3)
    with st r show ?thesis by blast
  qed
  have two: "\<exists>s' halfword'.
         lz77_step 2 (lz_pair_example, 0x02000005, 0x03000000, 4, 0x80, 8, 0)
           = (s', 0x02000007, 0x03000004, 0, 0x100, 7, halfword')
       \<and> stores s' = [Store16 0x03000000 0xBBAA, Store16 0x03000002 0xBBAA]"
  proof -
    obtain s' source' dest' remaining' blockheader' blocksRemaining' halfword' where
      st: "lz77_step 2 (lz_pair_example, 0x02000005, 0x03000000, 4, 0x80, 8, 0)
             = (s', source', dest', remaining', blockheader', blocksRemaining', halfword')"
      by (cases "lz77_step 2 (lz_pair_example, 0x02000005, 0x03000000, 4, 0x80, 8, 0)")
    have dl: "(1::u32) = push_bit 8 (ucast ((0x10::u8) AND 0x0F)) OR ucast (1::u8)"
      "(4::nat) = unat (drop_bit 4 (0x10::u8)) + 3" "(4::nat) = min 4 (nat 4)"
      by simp_all
    note t = lz77_compressed_chunk [OF h(1,2,3) lz_pair_example_facts(1,2) dl st]
    from t have r: "source' = 0x02000007" "dest' = 0x03000004" "remaining' = 0"
      "blockheader' = 0x100" "blocksRemaining' = 7"
      by simp_all
    define V' where "V' = lz77_view 2 s' dest' halfword'"
    have V: "lz77_view 2 lz_pair_example 0x03000000 0 = mem lz_pair_example"
      by (simp add: lz77_view_def)
    have w2: "(2::int) = 2 \<and> ((0x03000000::u32) AND 1 \<noteq> 0 \<longrightarrow> (0::u32) < 0x100)" by simp
    have nz: "(1::u32) \<noteq> 0" by simp
    from t w2 have S: "stores s' = stores lz_pair_example
               @ map (\<lambda>i. Store16 (0x03000000 + of_nat i - 1)
                        (ucast (V' (0x03000000 + of_nat i - 1))
                         OR push_bit 8 (ucast (V' (0x03000000 + of_nat i)))))
                   (filter (\<lambda>i. ((0x03000000::u32) + of_nat i) AND 1 \<noteq> 0) [0..<4])"
      unfolding V'_def by blast
    from t w2 nz have P: "\<forall>i<4. V' (0x03000000 + of_nat i) =
                   (if i \<le> unat (1::u32)
                    then lz77_view 2 lz_pair_example 0x03000000 0 (0x03000000 - 1 - 1 + of_nat i)
                    else V' (0x03000000 + of_nat (i - unat (1::u32) - 1)))"
      unfolding V'_def by blast
    from P [rule_format, of 0] have m0: "V' 0x03000000 = 0xAA"
      by (simp add: V lz_pair_example_facts)
    from P [rule_format, of 1] have m1: "V' 0x03000001 = 0xBB"
      by (simp add: V lz_pair_example_facts)
    from P [rule_format, of 2] m0 have m2: "V' 0x03000002 = 0xAA" by simp
    from P [rule_format, of 3] m1 have m3: "V' 0x03000003 = 0xBB" by simp
    from S have "stores s' = [Store16 0x03000000 0xBBAA, Store16 0x03000002 0xBBAA]"
      unfolding u by (simp add: lz_pair_example_facts m0 m1 m2 m3)
    with st r show ?thesis by blast
  qed
  from h lz_chunk_example_facts lz_pair_example_facts one two show ?thesis by simp
qed

end
